theory Spec2Isabelle
  imports Main "HOL-Library.Char_ord" "HOL-Library.List_Lexorder"
begin

text \<open>
  The functions of \<open>env_validator.py\<close> that extract a schema from an annotated template,
  read configuration values, coerce them to the declared types and validate a
  configuration against the schema, each as a function of the same name. Exceptions are
  values of a sum type, loops are folds or recursive functions, dictionaries are
  association lists in insertion order.
\<close>

section \<open>Strings\<close>

text \<open>
  A Python \<open>str\<close> is modelled as a \<open>string\<close>: a list of characters whose code points
  lie below 256. The character classes below are Python's on that range:
  \<open>str.isspace\<close> (the set that \<open>str.strip()\<close> removes and that \<open>\s\<close> matches) and
  \<open>str.lower\<close>.
\<close>

abbreviation sq :: char where "sq \<equiv> CHR 0x27"
abbreviation dq :: char where "dq \<equiv> CHR 0x22"
abbreviation bslash :: char where "bslash \<equiv> CHR 0x5C"
abbreviation slash :: char where "slash \<equiv> CHR ''/''"
abbreviation comma :: char where "comma \<equiv> CHR '',''"

definition is_space :: "char \<Rightarrow> bool" where
  "is_space c =
     (let n = (of_char c :: nat)
      in (9 \<le> n \<and> n \<le> 13) \<or> (28 \<le> n \<and> n \<le> 32) \<or> n = 133 \<or> n = 160)"

definition lstrip :: "string \<Rightarrow> string" where
  "lstrip s = dropWhile is_space s"

definition rstrip :: "string \<Rightarrow> string" where
  "rstrip s = rev (dropWhile is_space (rev s))"

definition strip :: "string \<Rightarrow> string" where
  "strip s = rstrip (lstrip s)"

text \<open>\<open>s.strip(c)\<close>, \<open>s.rstrip(c)\<close> for a one-character argument: every leading and
  trailing occurrence of the character goes.\<close>

definition rstrip_char :: "char \<Rightarrow> string \<Rightarrow> string" where
  "rstrip_char c s = rev (dropWhile (\<lambda>x. x = c) (rev s))"

definition strip_char :: "char \<Rightarrow> string \<Rightarrow> string" where
  "strip_char c s = rstrip_char c (dropWhile (\<lambda>x. x = c) s)"

definition lower_char :: "char \<Rightarrow> char" where
  "lower_char c =
     (let n = (of_char c :: nat)
      in if (65 \<le> n \<and> n \<le> 90) \<or> (192 \<le> n \<and> n \<le> 222 \<and> n \<noteq> 215)
         then char_of (n + 32) else c)"

definition lower :: "string \<Rightarrow> string" where
  "lower s = map lower_char s"

section \<open>The list tokenizer\<close>

text \<open>
  \<open>_tokenize_list\<close>: the loop variables are the fields of \<open>tok_state\<close>; the
  \<open>while i < len(s)\<close> loop reads the characters of \<open>s\<close> from left to right and is a
  left fold of \<open>tok_step\<close>, whose branches are the loop body's, in its order.
\<close>

record tok_state =
  items :: "string list"
  current :: string
  in_quote :: bool
  quote_char :: "char option"
  in_regex :: bool
  regex_escaped :: bool

definition tok_init :: tok_state where
  "tok_init = \<lparr>items = [], current = [], in_quote = False, quote_char = None,
                in_regex = False, regex_escaped = False\<rparr>"

definition tok_step :: "tok_state \<Rightarrow> char \<Rightarrow> tok_state" where
  "tok_step st ch =
     (if in_quote st then
        st\<lparr>current := current st @ [ch],
           in_quote := (if Some ch = quote_char st then False else True)\<rparr>
      else if in_regex st then
        (if ch = bslash then
           st\<lparr>current := current st @ [ch], regex_escaped := \<not> regex_escaped st\<rparr>
         else
           st\<lparr>current := current st @ [ch],
              in_regex := (if ch = slash \<and> \<not> regex_escaped st then False else True),
              regex_escaped := False\<rparr>)
      else if ch = sq \<or> ch = dq then
        st\<lparr>in_quote := True, quote_char := Some ch, current := current st @ [ch]\<rparr>
      else if ch = slash then
        st\<lparr>in_regex := True, regex_escaped := False, current := current st @ [ch]\<rparr>
      else if ch = comma then
        (let token = strip (current st)
         in st\<lparr>items := (if token \<noteq> [] then items st @ [token] else items st),
               current := []\<rparr>)
      else st\<lparr>current := current st @ [ch]\<rparr>)"

definition tokenize_list :: "string \<Rightarrow> string list" where
  "tokenize_list inner =
     (let s = strip inner;
          st = foldl tok_step tok_init s;
          token = strip (current st)
      in if token \<noteq> [] then items st @ [token] else items st)"

text \<open>\<open>",".join(ts)\<close>.\<close>

fun join_commas :: "string list \<Rightarrow> string" where
  "join_commas [] = []"
| "join_commas [t] = t"
| "join_commas (t # ts) = t @ comma # join_commas ts"

section \<open>Library functions taken as parameters\<close>

text \<open>
  The program calls the interpreter's \<open>float\<close>, \<open>str\<close>, \<open>urlparse\<close>, list formatting and the
  \<open>re\<close> engine. They are not code of this program; the model takes them as the fields of
  one record, so that every theorem holds for whatever these functions compute.
  \<open>'f\<close> is the type of floats, \<open>'r\<close> the type of compiled patterns.

  \<^item> \<open>float_parse s\<close>: \<open>float(s)\<close>, \<open>None\<close> when it raises \<open>ValueError\<close>;
  \<^item> \<open>float_str f\<close>: \<open>str(f)\<close>;
  \<^item> \<open>float_eq\<close>, \<open>float_eq_int\<close>: \<open>==\<close> between two floats, and between a float and an
    integer;
  \<^item> \<open>int_limit_error s\<close>: the message of the \<open>ValueError\<close> that \<open>int(s, 10)\<close> raises on a
    well-formed decimal literal when the interpreter limits the number of digits of
    such a conversion, \<open>None\<close> when the conversion goes through;
  \<^item> \<open>urlparse s\<close>: the scheme and the network location of \<open>urlparse(s)\<close>, or the message
    of the \<open>ValueError\<close> it raises;
  \<^item> \<open>fullmatch r s\<close>: whether \<open>r.fullmatch(s)\<close> is not \<open>None\<close>;
  \<^item> \<open>repr_list xs\<close>: the text of a list of strings inside an f-string.
\<close>

record ('f, 'r) pylib =
  float_parse :: "string \<Rightarrow> 'f option"
  float_str :: "'f \<Rightarrow> string"
  float_eq :: "'f \<Rightarrow> 'f \<Rightarrow> bool"
  float_eq_int :: "'f \<Rightarrow> int \<Rightarrow> bool"
  int_limit_error :: "string \<Rightarrow> string option"
  urlparse :: "string \<Rightarrow> string + (string \<times> string)"
  fullmatch :: "'r \<Rightarrow> string \<Rightarrow> bool"
  repr_list :: "string list \<Rightarrow> string"

section \<open>Data model\<close>

text \<open>\<open>ConfigOption\<close>. The fields \<open>default\<close>, \<open>note\<close> and \<open>_compiled_regex\<close> are named
  \<open>default_value\<close>, \<open>note_text\<close> and \<open>compiled_regex\<close> here.\<close>

record 'r config_option =
  name :: string
  type_name :: string
  default_value :: "string option"
  required :: bool
  valid_literals :: "string list option"
  valid_regex :: "string list option"
  compiled_regex :: "('r \<times> string) list option"
  note_text :: "string option"
  default_was_quoted :: bool

text \<open>\<open>ValidationIssue\<close>. The source writes the level and the code as strings out of
  two fixed sets; the three shapes of the \<open>details\<close> dictionary are the constructors of
  \<open>details\<close>.\<close>

datatype level = Error | Warning

datatype code = Missing | Invalid_value | Unknown | Parse_error | Type_mismatch

datatype details =
    Default_note "string option" "string option"
  | Type_value string string
  | Allowed_value "string list" string

record issue =
  level :: level
  code :: code
  message :: string
  setting :: "string option"
  details :: "details option"

record validation_report =
  issues :: "issue list"
  errors :: nat
  warnings :: nat

section \<open>Type enforcement\<close>

text \<open>The value that a coercion returns next to the canonical string, and Python's
  \<open>==\<close> on such values. A string never equals a number or a boolean.\<close>

datatype 'f pyval = PBool bool | PInt int | PFloat 'f | PStr string

fun py_eq :: "('f, 'r) pylib \<Rightarrow> 'f pyval \<Rightarrow> 'f pyval \<Rightarrow> bool" where
  "py_eq lib (PBool a) (PBool b) = (a = b)"
| "py_eq lib (PBool a) (PInt b) = ((if a then 1 else 0) = b)"
| "py_eq lib (PInt a) (PBool b) = (a = (if b then 1 else 0))"
| "py_eq lib (PInt a) (PInt b) = (a = b)"
| "py_eq lib (PFloat a) (PFloat b) = float_eq lib a b"
| "py_eq lib (PFloat a) (PInt b) = float_eq_int lib a b"
| "py_eq lib (PInt a) (PFloat b) = float_eq_int lib b a"
| "py_eq lib (PFloat a) (PBool b) = float_eq_int lib a (if b then 1 else 0)"
| "py_eq lib (PBool a) (PFloat b) = float_eq_int lib b (if a then 1 else 0)"
| "py_eq lib (PStr a) (PStr b) = (a = b)"
| "py_eq lib _ _ = False"

text \<open>\<open>x in xs\<close> on a list: some element equals \<open>x\<close>. (The identity test that \<open>in\<close>
  makes first adds nothing here: where the two values are one object they are equal
  booleans or integers, and two floats come from two conversions.)\<close>

definition py_in :: "('f, 'r) pylib \<Rightarrow> 'f pyval \<Rightarrow> 'f pyval list \<Rightarrow> bool" where
  "py_in lib x xs = list_ex (\<lambda>e. py_eq lib e x) xs"

definition BOOL_TRUE :: "string list" where
  "BOOL_TRUE = [''true'', ''1'', ''yes'', ''y'', ''on'']"

definition BOOL_FALSE :: "string list" where
  "BOOL_FALSE = [''false'', ''0'', ''no'', ''n'', ''off'']"

definition coerce_bool :: "string \<Rightarrow> string + ('f pyval \<times> string)" where
  "coerce_bool v =
     (let v' = lower (strip v)
      in if v' \<in> set BOOL_TRUE then Inr (PBool True, ''true'')
         else if v' \<in> set BOOL_FALSE then Inr (PBool False, ''false'')
         else Inl ''expected a boolean (true/false/1/0/yes/no/on/off)'')"

definition is_digit :: "char \<Rightarrow> bool" where
  "is_digit c = (let n = (of_char c :: nat) in 48 \<le> n \<and> n \<le> 57)"

text \<open>\<open>re.fullmatch(r"[+-]?\d+", s)\<close>.\<close>

fun int_literal :: "string \<Rightarrow> bool" where
  "int_literal [] = False"
| "int_literal (c # cs) =
     (if c = CHR ''+'' \<or> c = CHR ''-'' then cs \<noteq> [] \<and> list_all is_digit cs
      else list_all is_digit (c # cs))"

definition digits_value :: "string \<Rightarrow> int" where
  "digits_value ds = foldl (\<lambda>acc c. 10 * acc + (int (of_char c) - 48)) 0 ds"

text \<open>\<open>int(s, 10)\<close> on a string that \<open>int_literal\<close> accepts.\<close>

fun int_value :: "string \<Rightarrow> int" where
  "int_value [] = 0"
| "int_value (c # cs) =
     (if c = CHR ''-'' then - digits_value cs
      else if c = CHR ''+'' then digits_value cs
      else digits_value (c # cs))"

fun show_nat :: "nat \<Rightarrow> string" where
  "show_nat n =
     (if n < 10 then [''0123456789'' ! n]
      else show_nat (n div 10) @ [''0123456789'' ! (n mod 10)])"

text \<open>\<open>str(i)\<close>.\<close>

definition show_int :: "int \<Rightarrow> string" where
  "show_int i = (if i < 0 then CHR ''-'' # show_nat (nat (- i)) else show_nat (nat i))"

definition coerce_int :: "('f, 'r) pylib \<Rightarrow> string \<Rightarrow> string + ('f pyval \<times> string)" where
  "coerce_int lib v =
     (if \<not> int_literal (strip v) then Inl ''expected an integer (e.g., -10, 0, 42)''
      else case int_limit_error lib (strip v) of
             Some e \<Rightarrow> Inl e
           | None \<Rightarrow> (let i = int_value (strip v) in Inr (PInt i, show_int i)))"

definition coerce_float :: "('f, 'r) pylib \<Rightarrow> string \<Rightarrow> string + ('f pyval \<times> string)" where
  "coerce_float lib v =
     (case float_parse lib (strip v) of
        None \<Rightarrow> Inl ''expected a float (e.g., -1.25, 3.14, 1e-6)''
      | Some f \<Rightarrow> Inr (PFloat f, float_str lib f))"

definition coerce_url :: "('f, 'r) pylib \<Rightarrow> string \<Rightarrow> string + ('f pyval \<times> string)" where
  "coerce_url lib v =
     (case urlparse lib (strip v) of
        Inl e \<Rightarrow> Inl e
      | Inr (scheme, netloc) \<Rightarrow>
          if scheme = [] \<or> netloc = []
          then Inl ''expected a URL with scheme and host (e.g., https://example.com)''
          else Inr (PStr (strip v), strip v))"

text \<open>\<open>_coerce_by_type\<close>: \<open>Inl\<close> carries the message of the \<open>ValueError\<close>.\<close>

definition coerce_by_type ::
  "('f, 'r) pylib \<Rightarrow> string \<Rightarrow> string \<Rightarrow> string + ('f pyval \<times> string)" where
  "coerce_by_type lib v ty =
     (if ty = ''string'' then Inr (PStr v, v)
      else if ty = ''bool'' then coerce_bool v
      else if ty = ''int'' then coerce_int lib v
      else if ty = ''float'' then coerce_float lib v
      else if ty = ''url'' then coerce_url lib v
      else Inr (PStr v, v))"

text \<open>\<open>_normalize_literal_for_type\<close>: any exception of the coercion gives back the
  literal itself, a string.\<close>

definition normalize_literal_for_type ::
  "('f, 'r) pylib \<Rightarrow> string \<Rightarrow> string \<Rightarrow> 'f pyval" where
  "normalize_literal_for_type lib literal ty =
     (case coerce_by_type lib literal ty of
        Inr (py_val, canon) \<Rightarrow>
          if ty = ''bool'' \<or> ty = ''int'' \<or> ty = ''float'' then py_val else PStr canon
      | Inl e \<Rightarrow> PStr literal)"

section \<open>Validation\<close>

text \<open>
  A dictionary is an association list in insertion order whose keys are distinct; the
  theorems that need the keys distinct assume it. \<open>name in env\<close> and \<open>env[name]\<close> are
  \<open>map_of env\<close> at the name; \<open>sorted(env.keys())\<close> is \<open>sort (map fst env)\<close>, strings being ordered
  as Python orders them, lexicographically by code point.
\<close>

type_synonym 'r schema = "(string \<times> 'r config_option) list"

type_synonym env = "(string \<times> string) list"

text \<open>\<open>'{s}'\<close> inside an f-string.\<close>

definition quoted :: "string \<Rightarrow> string" where
  "quoted s = sq # s @ [sq]"

definition unknown_issue :: "string \<Rightarrow> issue" where
  "unknown_issue key =
     \<lparr>level = Error, code = Unknown,
      message = ''Unknown variable '' @ quoted key @ '' present in .env but not in schema.'',
      setting = Some key, details = None\<rparr>"

definition missing_issue :: "string \<Rightarrow> 'r config_option \<Rightarrow> issue" where
  "missing_issue nm option =
     (if required option then
        \<lparr>level = Error, code = Missing,
         message = ''Missing required variable '' @ quoted nm @ ''.'',
         setting = Some nm,
         details = Some (Default_note (default_value option) (note_text option))\<rparr>
      else
        \<lparr>level = Warning, code = Missing,
         message = ''Variable '' @ quoted nm @ '' not set; default will be used.'',
         setting = Some nm,
         details = Some (Default_note (default_value option) (note_text option))\<rparr>)"

definition type_mismatch_issue :: "string \<Rightarrow> 'r config_option \<Rightarrow> string \<Rightarrow> string \<Rightarrow> issue" where
  "type_mismatch_issue nm option raw_value e =
     \<lparr>level = Error, code = Type_mismatch,
      message = ''Type mismatch for '' @ quoted nm @ '': '' @ e,
      setting = Some nm,
      details = Some (Type_value (type_name option) raw_value)\<rparr>"

definition invalid_value_issue ::
  "('f, 'r) pylib \<Rightarrow> string \<Rightarrow> 'r config_option \<Rightarrow> string \<Rightarrow> issue" where
  "invalid_value_issue lib nm option raw_value =
     (let literals = (case valid_literals option of None \<Rightarrow> [] | Some ls \<Rightarrow> ls);
          allowed_display =
            literals @ (case valid_regex option of None \<Rightarrow> [] | Some ds \<Rightarrow> ds)
      in \<lparr>level = Error, code = Invalid_value,
          message = ''Invalid value for '' @ quoted nm @ '': '' @ quoted raw_value
                    @ ''. Allowed: '' @ repr_list lib allowed_display,
          setting = Some nm,
          details = Some (Allowed_value allowed_display raw_value)\<rparr>)"

text \<open>
  The literal comparison of \<open>validate_env\<close> for a non-empty list of literals: typed
  values for \<open>bool\<close>, \<open>int\<close> and \<open>float\<close>, canonical strings otherwise.
\<close>

definition literal_compare ::
  "('f, 'r) pylib \<Rightarrow> bool \<Rightarrow> string \<Rightarrow> string list \<Rightarrow> 'f pyval \<Rightarrow> string \<Rightarrow> bool" where
  "literal_compare lib case_insensitive_values ty literals py_val canon_str =
     (if ty = ''bool'' \<or> ty = ''int'' \<or> ty = ''float'' then
        (let normalized_allowed = map (\<lambda>lit. normalize_literal_for_type lib lit ty) literals
         in py_in lib py_val normalized_allowed)
      else if case_insensitive_values then
        (let lit_l = map lower literals in lower canon_str \<in> set lit_l)
      else canon_str \<in> set literals)"

text \<open>
  The loop over the compiled patterns, with its \<open>break\<close>. Next to the result it returns
  the calls of \<open>fullmatch\<close> it made, in order, each as the pattern and the string it was
  matched against.
\<close>

fun regex_compare ::
  "('f, 'r) pylib \<Rightarrow> string \<Rightarrow> ('r \<times> string) list \<Rightarrow> bool \<times> ('r \<times> string) list" where
  "regex_compare lib raw_value [] = (False, [])"
| "regex_compare lib raw_value ((compiled, display) # rest) =
     (if fullmatch lib compiled raw_value then (True, [(compiled, raw_value)])
      else (let (ok, calls) = regex_compare lib raw_value rest
            in (ok, (compiled, raw_value) # calls)))"

text \<open>The value of \<open>allowed_ok\<close> after both comparisons, and the calls of \<open>fullmatch\<close>.\<close>

definition allowed_check ::
  "('f, 'r) pylib \<Rightarrow> bool \<Rightarrow> 'r config_option \<Rightarrow> string \<Rightarrow> 'f pyval \<Rightarrow> string
     \<Rightarrow> bool \<times> ('r \<times> string) list" where
  "allowed_check lib case_insensitive_values option raw_value py_val canon_str =
     (let literals = (case valid_literals option of None \<Rightarrow> [] | Some ls \<Rightarrow> ls);
          regex_pairs = (case compiled_regex option of None \<Rightarrow> [] | Some ps \<Rightarrow> ps);
          allowed_ok =
            (if literals \<noteq> [] then
               literal_compare lib case_insensitive_values (type_name option) literals
                 py_val canon_str
             else False)
      in if \<not> allowed_ok \<and> regex_pairs \<noteq> [] then regex_compare lib raw_value regex_pairs
         else (allowed_ok, []))"

text \<open>The body of the loop over \<open>schema.items()\<close>: the issues one option adds
  (\<open>nm\<close> is the loop's \<open>name\<close>).\<close>

definition check_option ::
  "('f, 'r) pylib \<Rightarrow> bool \<Rightarrow> env \<Rightarrow> string \<times> 'r config_option \<Rightarrow> issue list" where
  "check_option lib case_insensitive_values env entry =
     (let nm = fst entry; option = snd entry
      in case map_of env nm of
           None \<Rightarrow> [missing_issue nm option]
         | Some raw_value \<Rightarrow>
             (case coerce_by_type lib raw_value (type_name option) of
                Inl e \<Rightarrow> [type_mismatch_issue nm option raw_value e]
              | Inr (py_val, canon_str) \<Rightarrow>
                  (let literals = (case valid_literals option of None \<Rightarrow> [] | Some ls \<Rightarrow> ls);
                       regex_pairs =
                         (case compiled_regex option of None \<Rightarrow> [] | Some ps \<Rightarrow> ps)
                   in if literals \<noteq> [] \<or> regex_pairs \<noteq> [] then
                        (if fst (allowed_check lib case_insensitive_values option raw_value
                                   py_val canon_str)
                         then []
                         else [invalid_value_issue lib nm option raw_value])
                      else [])))"

definition validate_env ::
  "('f, 'r) pylib \<Rightarrow> 'r schema \<Rightarrow> env \<Rightarrow> bool \<Rightarrow> bool \<Rightarrow> validation_report" where
  "validate_env lib schema env strict_unknown case_insensitive_values =
     (let issues0 =
            (if strict_unknown then
               foldl (\<lambda>acc key. if map_of schema key = None then acc @ [unknown_issue key]
                                 else acc)
                 [] (sort (map fst env))
             else []);
          issues1 =
            foldl (\<lambda>acc entry. acc @ check_option lib case_insensitive_values env entry)
              issues0 schema
      in \<lparr>issues = issues1,
          errors = length (filter (\<lambda>i. level i = Error) issues1),
          warnings = length (filter (\<lambda>i. level i = Warning) issues1)\<rparr>)"

section \<open>Reading a \<open>.env\<close> value\<close>

text \<open>The loop of \<open>_parse_env_value\<close> over the characters after an opening quote:
  \<open>Some\<close> is its \<open>return\<close> at the closing quote, \<open>None\<close> the end of the loop.\<close>

fun quoted_loop :: "char \<Rightarrow> bool \<Rightarrow> string \<Rightarrow> string \<Rightarrow> string option" where
  "quoted_loop q escaped val_chars [] = None"
| "quoted_loop q escaped val_chars (ch # rest) =
     (if ch = q \<and> \<not> escaped then Some val_chars
      else quoted_loop q (ch = bslash \<and> \<not> escaped) (val_chars @ [ch]) rest)"

text \<open>\<open>s.find("#")\<close>, \<open>None\<close> for \<open>-1\<close>.\<close>

fun find_hash :: "string \<Rightarrow> nat option" where
  "find_hash [] = None"
| "find_hash (c # cs) =
     (if c = CHR ''#'' then Some 0 else map_option Suc (find_hash cs))"

definition parse_env_value :: "string \<Rightarrow> string" where
  "parse_env_value raw =
     (let s = strip (rstrip_char (CHR 0x0D) (rstrip_char (CHR 0x0A) raw))
      in if s = [] then []
         else if hd s = sq \<or> hd s = dq then
           (case quoted_loop (hd s) False [] (tl s) of
              Some v \<Rightarrow> v
            | None \<Rightarrow> tl s)
         else
           (let s' =
                  (case find_hash s of
                     None \<Rightarrow> s
                   | Some hash_pos \<Rightarrow>
                       (let before_hash = take hash_pos s
                        in if before_hash \<noteq> [] \<and>
                              (last before_hash = CHR '' '' \<or> last before_hash = CHR 0x09)
                           then strip before_hash else s))
            in strip_char dq (strip_char sq (strip s'))))"

section \<open>Schema extraction\<close>

text \<open>
  The \<open>re\<close> engine is a parameter here as well. Each field of \<open>relib\<close> is \<open>re.match\<close> of
  one pattern of the source on a string, giving the captured groups (\<open>None\<close>: no match):
  \<open>header_re\<close> is \<open>SETTING_HEADER_RE\<close>, \<open>name_re\<close> is \<open>NAME_LINE_RE\<close>, \<open>default_re\<close> is
  \<open>DEFAULT_LINE_RE\<close>, \<open>type_re\<close> is \<open>TYPE_LINE_RE\<close>, \<open>valid_values_re\<close> is
  \<open>VALID_VALUES_LINE_RE\<close>, \<open>note_re\<close> is \<open>NOTE_LINE_RE\<close>, \<open>required_re\<close> is
  \<open>REQUIRED_LINE_RE\<close>, and \<open>slash_form_re\<close> is the pattern \<open>^/(.*?)/([A-Za-z]*)$\<close> of
  \<open>_interpret_allowed_token\<close>. \<open>re_compile p flags\<close> is \<open>re.compile(p, flags)\<close>: the
  compiled pattern, the message of an \<open>re.error\<close>, or the message of another exception.
\<close>

datatype 'r compile_result = Compiled 'r | Re_error string | Other_error string

record 'r relib =
  header_re :: "string \<Rightarrow> string option"
  name_re :: "string \<Rightarrow> string option"
  default_re :: "string \<Rightarrow> string option"
  type_re :: "string \<Rightarrow> string option"
  valid_values_re :: "string \<Rightarrow> string option"
  note_re :: "string \<Rightarrow> string option"
  required_re :: "string \<Rightarrow> string option"
  slash_form_re :: "string \<Rightarrow> (string \<times> string) option"
  re_compile :: "string \<Rightarrow> nat \<Rightarrow> 'r compile_result"

definition strip_quotes :: "string \<Rightarrow> string" where
  "strip_quotes token0 =
     (let token = strip token0
      in if length token \<ge> 2 \<and> hd token = last token \<and> (hd token = sq \<or> hd token = dq)
         then butlast (tl token) else token)"

text \<open>\<open>_parse_default_value_with_quote_info\<close>: the first component is \<open>None\<close> for the
  schema's \<open>None\<close>.\<close>

definition parse_default_value_with_quote_info :: "string \<Rightarrow> string option \<times> bool" where
  "parse_default_value_with_quote_info token =
     (let raw = rstrip_char comma (strip token)
      in if lower raw = ''none'' then (None, False)
         else (let was_quoted =
                     (length raw \<ge> 2 \<and> (hd raw = sq \<or> hd raw = dq) \<and> last raw = hd raw);
                   val = strip_quotes raw
               in (Some val, was_quoted)))"

text \<open>\<open>_parse_type_value\<close>: \<open>Inl\<close> carries the message of the \<open>ValueError\<close>.\<close>

definition parse_type_value :: "string \<Rightarrow> string + string" where
  "parse_type_value token =
     (let v = lower (strip_quotes (rstrip_char comma (strip token)))
      in if v \<notin> {''string'', ''int'', ''float'', ''bool'', ''url''}
         then Inl (''Unsupported type '' @ quoted v @ ''. Allowed: ['' @ quoted ''bool''
                   @ '', '' @ quoted ''float'' @ '', '' @ quoted ''int'' @ '', ''
                   @ quoted ''string'' @ '', '' @ quoted ''url'' @ '']'')
         else Inr v)"

text \<open>\<open>_map_regex_flags\<close>, with the values of the flags of \<open>re\<close>:
  \<open>IGNORECASE = 2\<close>, \<open>LOCALE = 4\<close>, \<open>MULTILINE = 8\<close>, \<open>DOTALL = 16\<close>, \<open>VERBOSE = 64\<close>,
  \<open>ASCII = 256\<close>.\<close>

definition flag_map :: "char \<Rightarrow> nat" where
  "flag_map ch =
     (if ch = CHR ''i'' then 2 else if ch = CHR ''m'' then 8 else if ch = CHR ''s'' then 16
      else if ch = CHR ''x'' then 64 else if ch = CHR ''a'' then 256
      else if ch = CHR ''L'' then 4 else 0)"

definition map_regex_flags :: "string \<Rightarrow> nat" where
  "map_regex_flags flags_str = foldl (\<lambda>flags ch. or flags (flag_map ch)) 0 flags_str"

datatype 'r allowed_token = Literal string | Regex_token 'r string

text \<open>\<open>_interpret_allowed_token\<close>: \<open>Inl\<close> carries the message of the exception that
  leaves the function.\<close>

definition interpret_allowed_token :: "'r relib \<Rightarrow> string \<Rightarrow> string + 'r allowed_token" where
  "interpret_allowed_token rl token =
     (let raw = rstrip_char comma (strip token);
          unquoted = strip_quotes raw
      in case slash_form_re rl unquoted of
           Some (pattern, flags_str) \<Rightarrow>
             (let display = slash # pattern @ slash # flags_str
              in case re_compile rl pattern (map_regex_flags flags_str) of
                   Compiled compiled \<Rightarrow> Inr (Regex_token compiled display)
                 | Re_error e \<Rightarrow>
                     Inl (''Invalid regex in valid_values: '' @ display @ '' ('' @ e @ '')'')
                 | Other_error e \<Rightarrow> Inl e)
         | None \<Rightarrow>
             if take 6 (lower unquoted) = ''regex:'' then
               (let pattern = drop 6 unquoted;
                    display = ''regex:'' @ pattern
                in case re_compile rl pattern 0 of
                     Compiled compiled \<Rightarrow> Inr (Regex_token compiled display)
                   | Re_error e \<Rightarrow>
                       Inl (''Invalid regex in valid_values: '' @ display @ '' ('' @ e @ '')'')
                   | Other_error e \<Rightarrow> Inl e)
             else Inr (Literal unquoted))"

text \<open>The loop of \<open>_parse_valid_values\<close> over the tokens.\<close>

fun valid_values_loop ::
  "'r relib \<Rightarrow> string list \<Rightarrow> string list \<Rightarrow> ('r \<times> string) list
     \<Rightarrow> string + (string list \<times> ('r \<times> string) list)" where
  "valid_values_loop rl [] literals regex_list = Inr (literals, regex_list)"
| "valid_values_loop rl (tok # toks) literals regex_list =
     (case interpret_allowed_token rl tok of
        Inl e \<Rightarrow> Inl e
      | Inr (Literal v) \<Rightarrow> valid_values_loop rl toks (literals @ [v]) regex_list
      | Inr (Regex_token compiled disp) \<Rightarrow>
          valid_values_loop rl toks literals (regex_list @ [(compiled, disp)]))"

definition parse_valid_values ::
  "'r relib \<Rightarrow> string \<Rightarrow> string + (string list \<times> ('r \<times> string) list)" where
  "parse_valid_values rl inner = valid_values_loop rl (tokenize_list inner) [] []"

text \<open>The dictionary \<open>meta\<close> of \<open>parse_env_example_schema\<close>, one field per key.\<close>

record 'r meta =
  meta_name :: "string option"
  meta_type_name :: string
  meta_default :: "string option"
  meta_default_was_quoted :: bool
  meta_valid_literals :: "string list option"
  meta_valid_regex :: "('r \<times> string) list option"
  meta_note :: "string option"
  meta_required :: "bool option"

definition meta_init :: "'r meta" where
  "meta_init =
     \<lparr>meta_name = None, meta_type_name = ''string'', meta_default = None,
      meta_default_was_quoted = False, meta_valid_literals = None, meta_valid_regex = None,
      meta_note = None, meta_required = None\<rparr>"

definition parse_error_issue :: "level \<Rightarrow> string \<Rightarrow> string option \<Rightarrow> issue" where
  "parse_error_issue lv msg st =
     \<lparr>level = lv, code = Parse_error, message = msg, setting = st, details = None\<rparr>"

text \<open>
  One meta line of a block: the \<open>if\<close>/\<open>elif\<close> chain over the six matches, in its order.
  The result is the updated \<open>meta\<close> and the issues added. (The \<open>try\<close> around the default
  value has no \<open>except\<close> branch here: \<open>_parse_default_value_with_quote_info\<close> raises
  nothing.)
\<close>

definition meta_step :: "'r relib \<Rightarrow> string \<Rightarrow> 'r meta \<Rightarrow> string \<Rightarrow> 'r meta \<times> issue list" where
  "meta_step rl setting_name meta meta_line =
     (case name_re rl meta_line of
        Some g \<Rightarrow> (meta\<lparr>meta_name := Some (strip g)\<rparr>, [])
      | None \<Rightarrow>
     (case default_re rl meta_line of
        Some g \<Rightarrow>
          (let (val, was_quoted) = parse_default_value_with_quote_info g
           in (meta\<lparr>meta_default := val, meta_default_was_quoted := was_quoted\<rparr>, []))
      | None \<Rightarrow>
     (case type_re rl meta_line of
        Some g \<Rightarrow>
          (case parse_type_value g of
             Inr t \<Rightarrow> (meta\<lparr>meta_type_name := t\<rparr>, [])
           | Inl e \<Rightarrow>
               (meta, [parse_error_issue Error
                         (''Invalid type for '' @ setting_name @ '': '' @ e)
                         (Some setting_name)]))
      | None \<Rightarrow>
     (case valid_values_re rl meta_line of
        Some g \<Rightarrow>
          (case parse_valid_values rl g of
             Inr (lits, regexes) \<Rightarrow>
               (meta\<lparr>meta_valid_literals := (if lits = [] then None else Some lits),
                     meta_valid_regex := (if regexes = [] then None else Some regexes)\<rparr>, [])
           | Inl e \<Rightarrow>
               (meta, [parse_error_issue Error
                         (''Invalid valid_values for '' @ setting_name @ '': '' @ e)
                         (Some setting_name)]))
      | None \<Rightarrow>
     (case note_re rl meta_line of
        Some g \<Rightarrow>
          (meta\<lparr>meta_note := Some (strip_quotes (rstrip_char comma (strip g)))\<rparr>, [])
      | None \<Rightarrow>
     (case required_re rl meta_line of
        Some g \<Rightarrow> (meta\<lparr>meta_required := Some (lower g = ''true'')\<rparr>, [])
      | None \<Rightarrow> (meta, [])))))))"

text \<open>The option assembled at the end of a block.\<close>

definition build_option :: "string \<Rightarrow> 'r meta \<Rightarrow> 'r config_option" where
  "build_option setting_name meta =
     (let opt_name =
            strip (case meta_name meta of
                     None \<Rightarrow> setting_name
                   | Some n \<Rightarrow> if n = [] then setting_name else n);
          valid_regex_pairs = meta_valid_regex meta;
          req = (case meta_required meta of None \<Rightarrow> False | Some b \<Rightarrow> b);
          display_regex =
            map snd (case valid_regex_pairs of None \<Rightarrow> [] | Some ps \<Rightarrow> ps)
      in \<lparr>name = opt_name,
          type_name = meta_type_name meta,
          default_value = meta_default meta,
          required = req,
          valid_literals = meta_valid_literals meta,
          valid_regex = (if display_regex = [] then None else Some display_regex),
          compiled_regex =
            (case valid_regex_pairs of
               None \<Rightarrow> None
             | Some ps \<Rightarrow> if ps = [] then None else Some ps),
          note_text = meta_note meta,
          default_was_quoted = meta_default_was_quoted meta\<rparr>)"

text \<open>The inner \<open>while\<close> goes on as long as the line is a comment and no header.\<close>

definition is_meta_line :: "'r relib \<Rightarrow> string \<Rightarrow> bool" where
  "is_meta_line rl meta_line =
     (take 1 (lstrip meta_line) = ''#'' \<and> header_re rl meta_line = None)"

text \<open>The inner \<open>while\<close> over the meta lines of one block, as a fold.\<close>

definition block_fold ::
  "'r relib \<Rightarrow> string \<Rightarrow> string list \<Rightarrow> 'r meta \<times> issue list" where
  "block_fold rl setting_name meta_lines =
     foldl (\<lambda>(meta, iss) meta_line.
              (let (meta', new) = meta_step rl setting_name meta meta_line
               in (meta', iss @ new)))
       (meta_init, []) meta_lines"

text \<open>\<open>schema[k] = v\<close> on a dictionary in insertion order.\<close>

definition dict_set :: "(string \<times> 'v) list \<Rightarrow> string \<Rightarrow> 'v \<Rightarrow> (string \<times> 'v) list" where
  "dict_set d k v =
     (if map_of d k = None then d @ [(k, v)]
      else map (\<lambda>(k', v'). if k' = k then (k', v) else (k', v')) d)"

text \<open>The outer \<open>while\<close> over the lines of the file.\<close>

function parse_lines ::
  "'r relib \<Rightarrow> string list \<Rightarrow> 'r schema \<Rightarrow> issue list \<Rightarrow> 'r schema \<times> issue list" where
  "parse_lines rl [] schema iss = (schema, iss)"
| "parse_lines rl (line # rest) schema iss =
     (case header_re rl line of
        None \<Rightarrow> parse_lines rl rest schema iss
      | Some setting_name \<Rightarrow>
          (let (meta, new) = block_fold rl setting_name (takeWhile (is_meta_line rl) rest);
               option = build_option setting_name meta;
               opt_name = name option;
               dup = (if map_of schema opt_name \<noteq> None
                      then [parse_error_issue Warning
                              (''Duplicate schema entry for '' @ quoted opt_name
                               @ '' in env.example; later entry overwrites earlier.'')
                              (Some opt_name)]
                      else [])
           in parse_lines rl (dropWhile (is_meta_line rl) rest)
                (dict_set schema opt_name option) (iss @ new @ dup)))"
  by pat_completeness auto
termination
  by (relation "measure (\<lambda>(rl, ls, schema, iss). length ls)")
     (auto simp: length_dropWhile_le less_Suc_eq_le)

text \<open>What reading the file at \<open>path\<close> gives.\<close>

datatype file_read = Not_found | Read_failed string | Lines "string list"

definition parse_env_example_schema ::
  "'r relib \<Rightarrow> string \<Rightarrow> file_read \<Rightarrow> 'r schema \<times> issue list" where
  "parse_env_example_schema rl path file =
     (case file of
        Not_found \<Rightarrow>
          ([], [parse_error_issue Error (''env.example file not found: '' @ path) None])
      | Read_failed e \<Rightarrow>
          ([], [parse_error_issue Error (''Failed to read env.example file: '' @ e) None])
      | Lines ls \<Rightarrow>
          (let (schema, iss) = parse_lines rl ls [] []
           in if schema = [] then
                (schema, iss @ [parse_error_issue Warning
                  (''No schema blocks found in env.example (expected ''
                   @ quoted ''#SETTING'' @ '' blocks with meta lines).'') None])
              else (schema, iss)))"

section \<open>Instances for the examples\<close>

text \<open>
  The examples below need one instance of each library record. The examples use no float
  and no URL, so \<open>demo_lib\<close> gives these fields the simplest values. A compiled pattern
  is the predicate of the strings it fully matches: \<open>four_digits\<close> is the pattern
  \<open>^[0-9]{4}$\<close>. \<open>repr_list\<close> is Python's rendering for strings without quotes or
  escapes. \<open>demo_relib\<close> recognises the meta lines \<open>#    default=v\<close>, \<open>#    type=v\<close> and
  \<open>#    required=true|false\<close> with nothing after them, on which the patterns of the
  source capture \<open>v\<close>.
\<close>

fun join_with :: "string \<Rightarrow> string list \<Rightarrow> string" where
  "join_with sep [] = []"
| "join_with sep [t] = t"
| "join_with sep (t # ts) = t @ sep @ join_with sep ts"

definition demo_lib :: "(unit, string \<Rightarrow> bool) pylib" where
  "demo_lib =
     \<lparr>float_parse = (\<lambda>s. None), float_str = (\<lambda>f. []), float_eq = (\<lambda>a b. True),
      float_eq_int = (\<lambda>a n. False), int_limit_error = (\<lambda>s. None),
      urlparse = (\<lambda>s. Inr ([], [])), fullmatch = (\<lambda>r s. r s),
      repr_list = (\<lambda>xs. ''['' @ join_with '', '' (map quoted xs) @ '']'')\<rparr>"

definition four_digits :: "string \<Rightarrow> bool" where
  "four_digits s = (length s = 4 \<and> list_all is_digit s)"

definition port_option :: "(string \<Rightarrow> bool) config_option" where
  "port_option =
     \<lparr>name = ''PORT'', type_name = ''int'', default_value = None, required = True,
      valid_literals = Some [''80'', ''443''], valid_regex = Some [''/^[0-9]{4}$/''],
      compiled_regex = Some [(four_digits, ''/^[0-9]{4}$/'')], note_text = None,
      default_was_quoted = False\<rparr>"

definition port_default_option :: "(string \<Rightarrow> bool) config_option" where
  "port_default_option = port_option\<lparr>default_value := Some ''8080''\<rparr>"

definition debug_option :: "(string \<Rightarrow> bool) config_option" where
  "debug_option =
     \<lparr>name = ''DEBUG'', type_name = ''bool'', default_value = None, required = False,
      valid_literals = None, valid_regex = None, compiled_regex = None, note_text = None,
      default_was_quoted = False\<rparr>"

definition retries_option :: "(string \<Rightarrow> bool) config_option" where
  "retries_option =
     \<lparr>name = ''RETRIES'', type_name = ''int'', default_value = Some ''3'', required = False,
      valid_literals = Some [''three'', ''03''], valid_regex = None,
      compiled_regex = None, note_text = None, default_was_quoted = True\<rparr>"

definition demo_schema :: "(string \<Rightarrow> bool) schema" where
  "demo_schema = [(''PORT'', port_option), (''DEBUG'', debug_option)]"

definition after :: "string \<Rightarrow> string \<Rightarrow> string option" where
  "after p l = (if take (length p) l = p then Some (drop (length p) l) else None)"

definition demo_relib :: "(string \<Rightarrow> bool) relib" where
  "demo_relib =
     \<lparr>header_re = (\<lambda>l. None), name_re = (\<lambda>l. None),
      default_re = after ''#    default='', type_re = after ''#    type='',
      valid_values_re = (\<lambda>l. None), note_re = (\<lambda>l. None),
      required_re = (\<lambda>l. if l = ''#    required=true'' then Some ''true''
                          else if l = ''#    required=false'' then Some ''false'' else None),
      slash_form_re = (\<lambda>s. None), re_compile = (\<lambda>p flags. Re_error [])\<rparr>"

section \<open>Notions used in the statements and proofs\<close>

text \<open>
  The position of the tokenizer in the text is one of three modes: at top level, inside
  a quoted string opened by a given quote character, or inside a slash-delimited regex
  (the flag tells whether the previous character was an unpaired backslash).
  \<open>tok_rel\<close> relates the four loop variables of \<open>tok_step\<close> to the mode; \<open>segs m s\<close>
  cuts \<open>s\<close>, read from mode \<open>m\<close>, at the commas read at top level; \<open>nosplit m s\<close> says
  that no comma of \<open>s\<close> is read at top level; \<open>toks\<close> strips the pieces and drops the
  empty ones.
\<close>

datatype mode = Top | InQuote char | InRegex bool

fun next_mode :: "mode \<Rightarrow> char \<Rightarrow> mode" where
  "next_mode (InQuote q) c = (if c = q then Top else InQuote q)"
| "next_mode (InRegex e) c =
     (if c = bslash then InRegex (\<not> e)
      else if c = slash \<and> \<not> e then Top else InRegex False)"
| "next_mode Top c =
     (if c = sq \<or> c = dq then InQuote c
      else if c = slash then InRegex False else Top)"

abbreviation end_mode :: "mode \<Rightarrow> string \<Rightarrow> mode" where
  "end_mode m s \<equiv> foldl next_mode m s"

definition tok_rel :: "tok_state \<Rightarrow> mode \<Rightarrow> bool" where
  "tok_rel st m =
     (case m of
        Top \<Rightarrow> \<not> in_quote st \<and> \<not> in_regex st
      | InQuote q \<Rightarrow> in_quote st \<and> quote_char st = Some q \<and> \<not> in_regex st
      | InRegex e \<Rightarrow> \<not> in_quote st \<and> in_regex st \<and> regex_escaped st = e)"

fun segs :: "mode \<Rightarrow> string \<Rightarrow> string list" where
  "segs m [] = [[]]"
| "segs m (c # cs) =
     (if m = Top \<and> c = comma then [] # segs Top cs
      else (c # hd (segs (next_mode m c) cs)) # tl (segs (next_mode m c) cs))"

fun nosplit :: "mode \<Rightarrow> string \<Rightarrow> bool" where
  "nosplit m [] = True"
| "nosplit m (c # cs) = (\<not> (m = Top \<and> c = comma) \<and> nosplit (next_mode m c) cs)"

definition toks :: "string list \<Rightarrow> string list" where
  "toks xs = filter (\<lambda>t. t \<noteq> []) (map strip xs)"

fun good :: "mode \<Rightarrow> string list \<Rightarrow> bool" where
  "good m [] = False"
| "good m [x] = nosplit m x"
| "good m (x # xs) = (nosplit m x \<and> end_mode m x = Top \<and> good Top xs)"

fun okm :: "mode \<Rightarrow> bool" where
  "okm (InQuote q) = (q = sq \<or> q = dq)"
| "okm _ = True"

text \<open>
  A grammar of list texts that does not mention the tokenizer. A segment is a sequence of
  items: a plain character (no quote, slash or comma), a quoted string \<open>q body q\<close> whose
  body has no \<open>q\<close>, or a regex \<open>/units/\<close> whose units are plain characters (no
  backslash, no slash) and escape pairs (a backslash and any character, so that an
  escaped slash does not end the regex). A list text is a comma-separated sequence of
  segments, the last of which may end in a tail: a quoted string or a regex that is
  still open at the end of the text (an open regex may end in an unpaired backslash).
  \<open>pieces\<close> are the texts between the separating commas, which are the top-level commas
  of the list text.
\<close>

datatype runit = RChar char | REsc char

datatype item = Plain char | Quoted char string | Regex "runit list"

datatype tail = Closed | Open_quote char string | Open_regex "runit list" bool

fun render_unit :: "runit \<Rightarrow> string" where
  "render_unit (RChar c) = [c]"
| "render_unit (REsc c) = [bslash, c]"

fun render_item :: "item \<Rightarrow> string" where
  "render_item (Plain c) = [c]"
| "render_item (Quoted q body) = q # body @ [q]"
| "render_item (Regex us) = slash # concat (map render_unit us) @ [slash]"

definition render_seg :: "item list \<Rightarrow> string" where
  "render_seg its = concat (map render_item its)"

fun render_tail :: "tail \<Rightarrow> string" where
  "render_tail Closed = []"
| "render_tail (Open_quote q body) = q # body"
| "render_tail (Open_regex us esc) =
     slash # concat (map render_unit us) @ (if esc then [bslash] else [])"

fun wf_unit :: "runit \<Rightarrow> bool" where
  "wf_unit (RChar c) = (c \<noteq> bslash \<and> c \<noteq> slash)"
| "wf_unit (REsc c) = True"

fun wf_item :: "item \<Rightarrow> bool" where
  "wf_item (Plain c) = (c \<noteq> sq \<and> c \<noteq> dq \<and> c \<noteq> slash \<and> c \<noteq> comma)"
| "wf_item (Quoted q body) = ((q = sq \<or> q = dq) \<and> q \<notin> set body)"
| "wf_item (Regex us) = list_all wf_unit us"

definition wf_seg :: "item list \<Rightarrow> bool" where
  "wf_seg its = list_all wf_item its"

fun wf_tail :: "tail \<Rightarrow> bool" where
  "wf_tail Closed = True"
| "wf_tail (Open_quote q body) = ((q = sq \<or> q = dq) \<and> q \<notin> set body)"
| "wf_tail (Open_regex us esc) = list_all wf_unit us"

definition pieces :: "item list list \<Rightarrow> item list \<Rightarrow> tail \<Rightarrow> string list" where
  "pieces sgs final tr = map render_seg sgs @ [render_seg final @ render_tail tr]"

definition wf_text :: "item list list \<Rightarrow> item list \<Rightarrow> tail \<Rightarrow> bool" where
  "wf_text sgs final tr = (list_all wf_seg sgs \<and> wf_seg final \<and> wf_tail tr)"

text \<open>The configuration keys that the schema does not declare, sorted; the calls of
  \<open>fullmatch\<close> up to and including the first match.\<close>

definition unknown_keys :: "'r schema \<Rightarrow> env \<Rightarrow> string list" where
  "unknown_keys schema env = filter (\<lambda>k. map_of schema k = None) (sort (map fst env))"

definition tried :: "('f, 'r) pylib \<Rightarrow> string \<Rightarrow> ('r \<times> string) list \<Rightarrow> ('r \<times> string) list" where
  "tried lib raw_value pairs =
     map (\<lambda>p. (fst p, raw_value))
       (takeWhile (\<lambda>p. \<not> fullmatch lib (fst p) raw_value) pairs
        @ take 1 (dropWhile (\<lambda>p. \<not> fullmatch lib (fst p) raw_value) pairs))"

abbreviation hash :: char where "hash \<equiv> CHR ''#''"

text \<open>A meta line that the \<open>if\<close>/\<open>elif\<close> chain of a block treats as a \<open>required\<close> line,
  and one that it treats as a \<open>default\<close> line.\<close>

definition is_required_line :: "'r relib \<Rightarrow> string \<Rightarrow> bool" where
  "is_required_line rl meta_line =
     (name_re rl meta_line = None \<and> default_re rl meta_line = None \<and>
      type_re rl meta_line = None \<and> valid_values_re rl meta_line = None \<and>
      note_re rl meta_line = None \<and> required_re rl meta_line \<noteq> None)"

definition is_default_line :: "'r relib \<Rightarrow> string \<Rightarrow> bool" where
  "is_default_line rl meta_line =
     (name_re rl meta_line = None \<and> default_re rl meta_line \<noteq> None)"

section \<open>Stripping whitespace and characters\<close>

lemma strip_decomp:
  "\<exists>a b. s = a @ strip s @ b \<and> (\<forall>c\<in>set a. is_space c) \<and> (\<forall>c\<in>set b. is_space c)"
proof -
  let ?a = "takeWhile is_space s"
  let ?t = "dropWhile is_space s"
  let ?b = "rev (takeWhile is_space (rev ?t))"
  have "rev (takeWhile is_space (rev ?t) @ dropWhile is_space (rev ?t)) = rev (rev ?t)"
    by (simp only: takeWhile_dropWhile_id)
  then have "rev (dropWhile is_space (rev ?t)) @ ?b = ?t"
    by (simp only: rev_append rev_rev_ident)
  then have t: "?t = strip s @ ?b"
    by (simp add: strip_def rstrip_def lstrip_def)
  have "s = ?a @ ?t" by simp
  with t have "s = ?a @ strip s @ ?b" by simp
  moreover have "\<forall>c\<in>set ?a. is_space c" by (auto dest: set_takeWhileD)
  moreover have "\<forall>c\<in>set ?b. is_space c" by (auto dest: set_takeWhileD)
  ultimately show ?thesis by blast
qed

lemma rstrip_ends: "rstrip s \<noteq> [] \<Longrightarrow> \<not> is_space (last (rstrip s))"
proof -
  assume ne: "rstrip s \<noteq> []"
  then have d: "dropWhile is_space (rev s) \<noteq> []" by (simp add: rstrip_def)
  then have "\<not> is_space (hd (dropWhile is_space (rev s)))" by (rule hd_dropWhile)
  with d show ?thesis by (simp add: rstrip_def last_rev)
qed

lemma strip_last: "strip s \<noteq> [] \<Longrightarrow> \<not> is_space (last (strip s))"
  unfolding strip_def by (rule rstrip_ends)

lemma rstrip_hd: "rstrip s \<noteq> [] \<Longrightarrow> hd (rstrip s) = hd s"
proof (induction s rule: rev_induct)
  case Nil
  then show ?case by (simp add: rstrip_def)
next
  case (snoc x xs)
  show ?case
  proof (cases "is_space x")
    case True
    then have e: "rstrip (xs @ [x]) = rstrip xs" by (simp add: rstrip_def)
    with snoc have "hd (rstrip xs) = hd xs" "xs \<noteq> []" by (auto simp: rstrip_def)
    with e show ?thesis by simp
  next
    case False
    then show ?thesis by (simp add: rstrip_def)
  qed
qed

lemma strip_hd: "strip s \<noteq> [] \<Longrightarrow> \<not> is_space (hd (strip s))"
proof -
  assume ne: "strip s \<noteq> []"
  then have "hd (strip s) = hd (lstrip s)" unfolding strip_def by (rule rstrip_hd)
  moreover from ne have "lstrip s \<noteq> []" by (auto simp: strip_def rstrip_def)
  then have "\<not> is_space (hd (lstrip s))" unfolding lstrip_def by (rule hd_dropWhile)
  ultimately show ?thesis by simp
qed

lemma strip_id:
  "s \<noteq> [] \<Longrightarrow> \<not> is_space (hd s) \<Longrightarrow> \<not> is_space (last s) \<Longrightarrow> strip s = s"
proof -
  assume ne: "s \<noteq> []" and h: "\<not> is_space (hd s)" and l: "\<not> is_space (last s)"
  from ne h have l1: "lstrip s = s" by (cases s) (simp_all add: lstrip_def)
  from ne l have "dropWhile is_space (rev s) = rev s"
    by (cases "rev s") (simp_all add: last_rev hd_rev)
  then have "rstrip s = s" by (simp add: rstrip_def)
  with l1 show ?thesis by (simp add: strip_def)
qed

lemma strip_Nil [simp]: "strip [] = []"
  by (simp add: strip_def rstrip_def lstrip_def)

lemma strip_strip: "strip (strip s) = strip s"
  by (cases "strip s = []") (simp_all add: strip_id strip_hd strip_last)

lemma lstrip_spaces: "\<forall>c\<in>set a. is_space c \<Longrightarrow> lstrip (a @ s) = lstrip s"
  by (induction a) (simp_all add: lstrip_def)

lemma rstrip_spaces: "\<forall>c\<in>set b. is_space c \<Longrightarrow> rstrip (s @ b) = rstrip s"
proof (induction b rule: rev_induct)
  case Nil
  then show ?case by simp
next
  case (snoc x xs)
  then have "rstrip ((s @ xs) @ [x]) = rstrip (s @ xs)" by (simp add: rstrip_def)
  with snoc show ?case by simp
qed

lemma lstrip_append_ne: "lstrip s \<noteq> [] \<Longrightarrow> lstrip (s @ b) = lstrip s @ b"
  unfolding lstrip_def by (induction s) auto

lemma lstrip_all_space: "lstrip s = [] \<Longrightarrow> \<forall>c\<in>set s. is_space c"
  unfolding lstrip_def by (induction s) (auto split: if_splits)

lemma rstrip_all_space: "\<forall>c\<in>set s. is_space c \<Longrightarrow> rstrip s = []"
  using rstrip_spaces[of s "[]"] by (simp add: rstrip_def)

lemma strip_spaces_left: "\<forall>c\<in>set a. is_space c \<Longrightarrow> strip (a @ s) = strip s"
  by (simp add: strip_def lstrip_spaces)

lemma strip_spaces_right: "\<forall>c\<in>set b. is_space c \<Longrightarrow> strip (s @ b) = strip s"
proof (cases "lstrip s = []")
  case True
  assume b: "\<forall>c\<in>set b. is_space c"
  from True have "\<forall>c\<in>set s. is_space c" by (rule lstrip_all_space)
  with b have all: "\<forall>c\<in>set (s @ b). is_space c" by auto
  have "\<forall>c\<in>set (lstrip (s @ b)). is_space c"
    using all unfolding lstrip_def by (auto dest: set_dropWhileD)
  then have "strip (s @ b) = []" unfolding strip_def by (rule rstrip_all_space)
  moreover from True have "strip s = []" by (simp add: strip_def rstrip_def)
  ultimately show ?thesis by simp
next
  case False
  assume b: "\<forall>c\<in>set b. is_space c"
  from False have "lstrip (s @ b) = lstrip s @ b" by (rule lstrip_append_ne)
  then show ?thesis using rstrip_spaces[OF b] by (simp add: strip_def)
qed

lemma rstrip_char_keep:
  "t \<noteq> [] \<Longrightarrow> hd t \<noteq> c \<Longrightarrow> rstrip_char c t \<noteq> [] \<and> hd (rstrip_char c t) = hd t"
proof (induction t rule: rev_induct)
  case Nil
  then show ?case by simp
next
  case (snoc x xs)
  show ?case
  proof (cases "x = c")
    case True
    then have e: "rstrip_char c (xs @ [x]) = rstrip_char c xs" by (simp add: rstrip_char_def)
    from True snoc.prems have ne: "xs \<noteq> []" by (cases xs) auto
    with snoc.prems have "hd xs \<noteq> c" by (cases xs) auto
    with snoc.IH ne e show ?thesis by (cases xs) auto
  next
    case False
    then have "rstrip_char c (xs @ [x]) = xs @ [x]" by (simp add: rstrip_char_def)
    then show ?thesis by simp
  qed
qed

lemma rstrip_char_last: "rstrip_char c t \<noteq> [] \<Longrightarrow> last (rstrip_char c t) \<noteq> c"
proof -
  assume "rstrip_char c t \<noteq> []"
  then have d: "dropWhile (\<lambda>x. x = c) (rev t) \<noteq> []" by (simp add: rstrip_char_def)
  then have "\<not> (hd (dropWhile (\<lambda>x. x = c) (rev t)) = c)" by (rule hd_dropWhile)
  with d show ?thesis by (simp add: rstrip_char_def last_rev)
qed

lemma strip_char_no_lead: "t \<noteq> [] \<Longrightarrow> hd t \<noteq> c \<Longrightarrow> strip_char c t = rstrip_char c t"
  by (cases t) (simp_all add: strip_char_def)

lemma final_pass:
  assumes "t \<noteq> []" and "hd t \<noteq> sq" and "hd t \<noteq> dq"
  shows "strip_char dq (strip_char sq t) = rstrip_char dq (rstrip_char sq t)
         \<and> rstrip_char dq (rstrip_char sq t) \<noteq> []
         \<and> hd (rstrip_char dq (rstrip_char sq t)) = hd t
         \<and> last (rstrip_char dq (rstrip_char sq t)) \<noteq> dq"
proof -
  let ?u = "rstrip_char sq t"
  have u: "?u \<noteq> []" "hd ?u = hd t" using rstrip_char_keep[OF assms(1,2)] by simp_all
  have 1: "strip_char sq t = ?u" using assms(1,2) by (rule strip_char_no_lead)
  from u assms(3) have hu: "hd ?u \<noteq> dq" by simp
  have 2: "strip_char dq ?u = rstrip_char dq ?u" using u(1) hu by (rule strip_char_no_lead)
  have k: "rstrip_char dq ?u \<noteq> []" "hd (rstrip_char dq ?u) = hd ?u"
    using rstrip_char_keep[OF u(1) hu] by simp_all
  from 1 2 k u rstrip_char_last[OF k(1)] show ?thesis by simp
qed

lemma strip_keeps_hd: "t \<noteq> [] \<Longrightarrow> \<not> is_space (hd t) \<Longrightarrow> strip t \<noteq> [] \<and> hd (strip t) = hd t"
proof -
  assume ne: "t \<noteq> []" and h: "\<not> is_space (hd t)"
  then have l: "lstrip t = t" by (cases t) (simp_all add: lstrip_def)
  have "rstrip t \<noteq> []"
  proof
    assume "rstrip t = []"
    then have "dropWhile is_space (rev t) = []" by (simp add: rstrip_def)
    then have "\<forall>c \<in> set (rev t). is_space c" by simp
    with ne h show False by (cases t) auto
  qed
  with l show ?thesis using rstrip_hd[of t] by (simp add: strip_def)
qed

section \<open>The tokenizer as a scan over modes\<close>

lemma toks_Nil [simp]: "toks [] = []"
  by (simp add: toks_def)

lemma toks_append: "toks (xs @ ys) = toks xs @ toks ys"
  by (simp add: toks_def)

lemma toks_Cons: "toks (x # xs) = (if strip x \<noteq> [] then [strip x] else []) @ toks xs"
  by (simp add: toks_def)

lemma segs_nonempty: "segs m s \<noteq> []"
  by (cases s) simp_all

lemma tok_step_rel: "tok_rel st m \<Longrightarrow> tok_rel (tok_step st c) (next_mode m c)"
  by (cases m) (auto simp: tok_rel_def tok_step_def Let_def)

lemma tok_step_split:
  "tok_rel st Top \<Longrightarrow>
   items (tok_step st comma) = items st @ toks [current st] \<and> current (tok_step st comma) = []"
  by (simp add: tok_rel_def tok_step_def Let_def toks_def)

lemma tok_step_keep:
  "tok_rel st m \<Longrightarrow> \<not> (m = Top \<and> c = comma) \<Longrightarrow>
   items (tok_step st c) = items st \<and> current (tok_step st c) = current st @ [c]"
  by (cases m) (auto simp: tok_rel_def tok_step_def Let_def)

lemma fold_segs:
  "tok_rel st m \<Longrightarrow>
   items (foldl tok_step st s) =
     items st @ toks (butlast ((current st @ hd (segs m s)) # tl (segs m s))) \<and>
   current (foldl tok_step st s) = last ((current st @ hd (segs m s)) # tl (segs m s))"
proof (induction s arbitrary: st m)
  case Nil
  then show ?case by (simp add: toks_def)
next
  case (Cons c cs)
  have rel: "tok_rel (tok_step st c) (next_mode m c)"
    using Cons.prems by (rule tok_step_rel)
  obtain x xs where seg: "segs (next_mode m c) cs = x # xs"
    using segs_nonempty by (cases "segs (next_mode m c) cs") auto
  show ?case
  proof (cases "m = Top \<and> c = comma")
    case True
    then have nm: "next_mode m c = Top" by simp
    from True Cons.prems have st1: "items (tok_step st c) = items st @ toks [current st]"
      "current (tok_step st c) = []"
      using tok_step_split by auto
    from Cons.IH[OF rel] show ?thesis
      using True st1 seg by (simp add: nm toks_Cons)
  next
    case False
    with Cons.prems have st1: "items (tok_step st c) = items st"
      "current (tok_step st c) = current st @ [c]"
      using tok_step_keep by auto
    from False seg have sg: "segs m (c # cs) = (c # x) # xs" by simp
    from Cons.IH[OF rel] show ?thesis
      unfolding sg using st1 seg by simp
  qed
qed

lemma toks_butlast_last:
  "xs \<noteq> [] \<Longrightarrow>
   (if strip (last xs) \<noteq> [] then toks (butlast xs) @ [strip (last xs)] else toks (butlast xs))
     = toks xs"
proof -
  assume "xs \<noteq> []"
  then have "xs = butlast xs @ [last xs]" by simp
  then have "toks xs = toks (butlast xs) @ toks [last xs]"
    by (metis toks_append)
  then show ?thesis by (simp add: toks_def)
qed

lemma tokenize_list_segs: "tokenize_list inner = toks (segs Top (strip inner))"
proof -
  have rel: "tok_rel tok_init Top" by (simp add: tok_rel_def tok_init_def)
  have ne: "segs Top (strip inner) \<noteq> []" by (rule segs_nonempty)
  have i0: "items tok_init = []" "current tok_init = []" by (simp_all add: tok_init_def)
  from fold_segs[OF rel, of "strip inner"] ne i0
  have "items (foldl tok_step tok_init (strip inner)) = toks (butlast (segs Top (strip inner)))"
    and "current (foldl tok_step tok_init (strip inner)) = last (segs Top (strip inner))"
    by simp_all
  then show ?thesis
    using toks_butlast_last[OF ne] by (auto simp: tokenize_list_def Let_def split: if_splits)
qed

lemma good_Cons:
  "xs \<noteq> [] \<Longrightarrow> good m (x # xs) = (nosplit m x \<and> end_mode m x = Top \<and> good Top xs)"
  by (cases xs) simp_all

lemma good_segs: "good m (segs m s)"
proof (induction s arbitrary: m)
  case Nil
  show ?case by simp
next
  case (Cons c cs)
  obtain x xs where seg: "segs (next_mode m c) cs = x # xs"
    using segs_nonempty by (cases "segs (next_mode m c) cs") auto
  show ?case
  proof (cases "m = Top \<and> c = comma")
    case True
    then have "segs m (c # cs) = [] # segs Top cs" by simp
    moreover have "good Top (segs Top cs)" by (rule Cons.IH)
    ultimately show ?thesis using True segs_nonempty by (simp add: good_Cons)
  next
    case False
    then have sg: "segs m (c # cs) = (c # x) # xs" using seg by simp
    have g: "good (next_mode m c) (x # xs)" using Cons.IH[of "next_mode m c"] seg by simp
    show ?thesis
    proof (cases xs)
      case Nil
      with g False show ?thesis unfolding sg by simp
    next
      case (Cons y ys)
      with g False show ?thesis unfolding sg by simp
    qed
  qed
qed

lemma nosplit_append: "nosplit m (a @ b) = (nosplit m a \<and> nosplit (end_mode m a) b)"
  by (induction a arbitrary: m) auto

lemma segs_nosplit_append:
  "nosplit m a \<Longrightarrow>
   segs m (a @ b) = (a @ hd (segs (end_mode m a) b)) # tl (segs (end_mode m a) b)"
proof (induction a arbitrary: m)
  case Nil
  then show ?case using segs_nonempty by simp
next
  case (Cons c cs)
  then have ns: "\<not> (m = Top \<and> c = comma)" "nosplit (next_mode m c) cs" by auto
  from Cons.IH[OF ns(2)] ns(1) show ?case by simp
qed

lemma segs_nosplit: "nosplit m a \<Longrightarrow> segs m a = [a]"
  using segs_nosplit_append[of m a "[]"] by simp

lemma segs_join: "good m xs \<Longrightarrow> segs m (join_commas xs) = xs"
proof (induction m xs rule: good.induct)
  case (1 m)
  then show ?case by simp
next
  case (2 m x)
  then show ?case by (simp add: segs_nosplit)
next
  case (3 m x y ys)
  then have ns: "nosplit m x" and em: "end_mode m x = Top" and g: "good Top (y # ys)"
    by auto
  from "3.IH" g have ih: "segs Top (join_commas (y # ys)) = y # ys" by simp
  have "join_commas (x # y # ys) = x @ comma # join_commas (y # ys)" by simp
  then show ?case
    using segs_nosplit_append[OF ns, of "comma # join_commas (y # ys)"] em ih by simp
qed

lemma space_plain:
  "is_space c \<Longrightarrow> c \<noteq> sq \<and> c \<noteq> dq \<and> c \<noteq> slash \<and> c \<noteq> comma \<and> c \<noteq> bslash"
  by (auto simp: is_space_def)

lemma spaces_Top:
  "\<forall>c\<in>set a. is_space c \<Longrightarrow> end_mode Top a = Top \<and> nosplit Top a"
  by (induction a) (auto dest: space_plain)

lemma nosplit_nocomma: "comma \<notin> set b \<Longrightarrow> nosplit m b"
  by (induction b arbitrary: m) auto

lemma segs_append_nocomma:
  "comma \<notin> set b \<Longrightarrow> segs m (t @ b) = butlast (segs m t) @ [last (segs m t) @ b]"
proof (induction t arbitrary: m)
  case Nil
  then show ?case by (simp add: segs_nosplit nosplit_nocomma)
next
  case (Cons c cs)
  obtain x xs where seg: "segs (next_mode m c) cs = x # xs"
    using segs_nonempty by (cases "segs (next_mode m c) cs") auto
  obtain y ys where seg': "segs Top cs = y # ys"
    using segs_nonempty by (cases "segs Top cs") auto
  show ?case
  proof (cases "m = Top \<and> c = comma")
    case True
    with Cons.IH[OF Cons.prems, of Top] seg' show ?thesis by simp
  next
    case False
    then have sg: "segs m (c # cs) = (c # x) # xs"
      and sg': "segs m ((c # cs) @ b) =
        (c # hd (segs (next_mode m c) (cs @ b))) # tl (segs (next_mode m c) (cs @ b))"
      using seg by simp_all
    from Cons.IH[OF Cons.prems, of "next_mode m c"] show ?thesis
      unfolding sg sg' using seg by (cases xs) simp_all
  qed
qed

lemma okm_next: "okm m \<Longrightarrow> okm (next_mode m c)"
  by (cases m) auto

lemma okm_end: "okm m \<Longrightarrow> okm (end_mode m s)"
  by (induction s arbitrary: m) (auto simp: okm_next)

lemma space_back: "okm m \<Longrightarrow> is_space c \<Longrightarrow> next_mode m c = Top \<Longrightarrow> m = Top"
  by (cases m) (auto dest: space_plain split: if_splits)

lemma spaces_back:
  "okm m \<Longrightarrow> \<forall>c\<in>set b. is_space c \<Longrightarrow> end_mode m b = Top \<Longrightarrow> m = Top"
proof (induction b arbitrary: m)
  case Nil
  then show ?case by simp
next
  case (Cons c cs)
  then have "next_mode m c = Top" using okm_next by auto
  with Cons.prems show ?case using space_back by auto
qed

lemma toks_hd_spaces: "\<forall>c\<in>set a. is_space c \<Longrightarrow> toks ((a @ x) # xs) = toks (x # xs)"
  by (simp add: toks_Cons strip_spaces_left)

lemma toks_last_spaces: "\<forall>c\<in>set b. is_space c \<Longrightarrow> toks (xs @ [x @ b]) = toks (xs @ [x])"
  by (simp add: toks_append toks_Cons strip_spaces_right)

lemma toks_segs_spaces:
  assumes a: "\<forall>c\<in>set a. is_space c" and b: "\<forall>c\<in>set b. is_space c"
  shows "toks (segs Top (a @ y @ b)) = toks (segs Top y)"
proof -
  have nc: "comma \<notin> set b" using b space_plain by blast
  let ?S = "segs Top y"
  let ?r = "butlast ?S @ [last ?S @ b]"
  have r: "segs Top (y @ b) = ?r" using segs_append_nocomma[OF nc] by simp
  have rne: "?r \<noteq> []" by simp
  from spaces_Top[OF a] have "segs Top (a @ (y @ b)) = (a @ hd ?r) # tl ?r"
    using segs_nosplit_append[of Top a "y @ b"] r by simp
  then have "toks (segs Top (a @ y @ b)) = toks (hd ?r # tl ?r)"
    using toks_hd_spaces[OF a] by simp
  also have "hd ?r # tl ?r = ?r" using rne by (rule hd_Cons_tl)
  also have "toks ?r = toks (butlast ?S @ [last ?S])" using b by (rule toks_last_spaces)
  also have "butlast ?S @ [last ?S] = ?S" using segs_nonempty by simp
  finally show ?thesis .
qed

lemma toks_segs_strip: "toks (segs Top (strip s)) = toks (segs Top s)"
proof -
  obtain a b where d: "s = a @ strip s @ b" and a: "\<forall>c\<in>set a. is_space c"
    and b: "\<forall>c\<in>set b. is_space c"
    using strip_decomp by blast
  from toks_segs_spaces[OF a b, of "strip s"] d show ?thesis by simp
qed

lemma tokenize_list_toks: "tokenize_list s = toks (segs Top s)"
  by (simp add: tokenize_list_segs toks_segs_strip)

lemma strip_nosplit: "nosplit Top x \<Longrightarrow> nosplit Top (strip x)"
proof -
  assume ns: "nosplit Top x"
  obtain a b where d: "x = a @ strip x @ b" and a: "\<forall>c\<in>set a. is_space c"
    and b: "\<forall>c\<in>set b. is_space c"
    using strip_decomp by blast
  from ns d have "nosplit Top (a @ strip x @ b)" by simp
  then show ?thesis using spaces_Top[OF a] by (simp add: nosplit_append)
qed

lemma strip_end_Top: "end_mode Top x = Top \<Longrightarrow> end_mode Top (strip x) = Top"
proof -
  assume e: "end_mode Top x = Top"
  obtain a b where d: "x = a @ strip x @ b" and a: "\<forall>c\<in>set a. is_space c"
    and b: "\<forall>c\<in>set b. is_space c"
    using strip_decomp by blast
  from e d have "end_mode Top (a @ strip x @ b) = Top" by simp
  then have "end_mode (end_mode Top (strip x)) b = Top"
    using spaces_Top[OF a] by simp
  moreover have "okm (end_mode Top (strip x))" by (rule okm_end) simp
  ultimately show ?thesis using b spaces_back by blast
qed

lemma good_toks: "good Top xs \<Longrightarrow> toks xs \<noteq> [] \<Longrightarrow> good Top (toks xs)"
proof (induction xs)
  case Nil
  then show ?case by simp
next
  case (Cons x xs)
  show ?case
  proof (cases xs)
    case Nil
    with Cons.prems show ?thesis by (auto simp: toks_Cons strip_nosplit split: if_splits)
  next
    case (Cons y ys)
    with Cons.prems have ns: "nosplit Top x" and em: "end_mode Top x = Top"
      and g: "good Top xs" by auto
    show ?thesis
    proof (cases "toks xs = []")
      case True
      with Cons.prems ns show ?thesis
        by (auto simp: toks_Cons strip_nosplit split: if_splits)
    next
      case False
      with Cons.IH g have ih: "good Top (toks xs)" by simp
      show ?thesis
      proof (cases "strip x = []")
        case True
        with ih show ?thesis by (simp add: toks_Cons)
      next
        case nex: False
        then have "toks (x # xs) = strip x # toks xs" by (simp add: toks_Cons)
        then show ?thesis
          using False ih ns em by (simp add: good_Cons strip_nosplit strip_end_Top)
      qed
    qed
  qed
qed

lemma toks_toks: "toks (toks xs) = toks xs"
  by (induction xs) (auto simp: toks_Cons strip_strip)

lemma tokenize_join_fixpoint:
  "tokenize_list (join_commas (tokenize_list s)) = tokenize_list s"
proof (cases "tokenize_list s = []")
  case True
  then show ?thesis by (simp add: tokenize_list_toks toks_def)
next
  case False
  let ?ts = "toks (segs Top s)"
  from False have ne: "?ts \<noteq> []" by (simp add: tokenize_list_toks)
  have "good Top ?ts" using good_segs ne by (rule good_toks)
  then have "segs Top (join_commas ?ts) = ?ts" by (rule segs_join)
  then show ?thesis by (simp add: tokenize_list_toks toks_toks)
qed

lemma quote_body:
  "q \<notin> set body \<Longrightarrow> nosplit (InQuote q) body \<and> end_mode (InQuote q) body = InQuote q"
  by (induction body) auto

lemma unit_scan:
  "wf_unit u \<Longrightarrow>
   nosplit (InRegex False) (render_unit u @ r) = nosplit (InRegex False) r \<and>
   end_mode (InRegex False) (render_unit u @ r) = end_mode (InRegex False) r"
  by (cases u) auto

lemma units_scan:
  "list_all wf_unit us \<Longrightarrow>
   nosplit (InRegex False) (concat (map render_unit us) @ r) = nosplit (InRegex False) r \<and>
   end_mode (InRegex False) (concat (map render_unit us) @ r) = end_mode (InRegex False) r"
proof (induction us)
  case Nil
  then show ?case by simp
next
  case (Cons u us)
  then have u: "wf_unit u" and us: "list_all wf_unit us" by simp_all
  from unit_scan[OF u, of "concat (map render_unit us) @ r"] Cons.IH[OF us]
  show ?case by simp
qed

lemma item_scan: "wf_item it \<Longrightarrow> nosplit Top (render_item it) \<and> end_mode Top (render_item it) = Top"
proof (cases it)
  case (Plain c)
  assume "wf_item it"
  with Plain show ?thesis by simp
next
  case (Quoted q body)
  assume "wf_item it"
  with Quoted have q: "q = sq \<or> q = dq" and b: "q \<notin> set body" by simp_all
  from quote_body[OF b] q Quoted show ?thesis by (auto simp: nosplit_append)
next
  case (Regex us)
  assume "wf_item it"
  with Regex have "list_all wf_unit us" by simp
  from units_scan[OF this, of "[slash]"] Regex show ?thesis by simp
qed

lemma seg_scan: "wf_seg its \<Longrightarrow> nosplit Top (render_seg its) \<and> end_mode Top (render_seg its) = Top"
  unfolding wf_seg_def render_seg_def
  by (induction its) (auto simp: nosplit_append item_scan)

lemma tail_scan: "wf_tail tr \<Longrightarrow> nosplit Top (render_tail tr)"
proof (cases tr)
  case Closed
  then show ?thesis by simp
next
  case (Open_quote q body)
  assume "wf_tail tr"
  with Open_quote have q: "q = sq \<or> q = dq" and b: "q \<notin> set body" by simp_all
  from quote_body[OF b] q Open_quote show ?thesis by auto
next
  case (Open_regex us esc)
  assume "wf_tail tr"
  with Open_regex have u: "list_all wf_unit us" by simp
  from units_scan[OF u, of "if esc then [bslash] else []"] Open_regex
  show ?thesis by simp
qed

lemma good_pieces: "wf_text sgs final tr \<Longrightarrow> good Top (pieces sgs final tr)"
proof (induction sgs)
  case Nil
  then show ?case
    by (simp add: pieces_def wf_text_def nosplit_append seg_scan tail_scan)
next
  case (Cons g gs)
  then have g: "wf_seg g" and rest: "wf_text gs final tr" by (simp_all add: wf_text_def)
  have ne: "pieces gs final tr \<noteq> []" by (simp add: pieces_def)
  have "pieces (g # gs) final tr = render_seg g # pieces gs final tr"
    by (simp add: pieces_def)
  then show ?case using Cons.IH[OF rest] seg_scan[OF g] ne by (simp add: good_Cons)
qed

lemma tokenize_pieces:
  "wf_text sgs final tr \<Longrightarrow>
   tokenize_list (join_commas (pieces sgs final tr))
     = filter (\<lambda>t. t \<noteq> []) (map strip (pieces sgs final tr))"
proof -
  assume "wf_text sgs final tr"
  then have "good Top (pieces sgs final tr)" by (rule good_pieces)
  then have "segs Top (join_commas (pieces sgs final tr)) = pieces sgs final tr"
    by (rule segs_join)
  then show ?thesis by (simp add: tokenize_list_toks toks_def)
qed

lemma join_commas_snoc_char: "join_commas (xs @ [y]) @ [c] = join_commas (xs @ [y @ [c]])"
  by (induction xs rule: join_commas.induct) simp_all

lemma join_commas_snoc_empty: "join_commas (xs @ [y]) @ [comma] = join_commas (xs @ [y] @ [[]])"
  by (induction xs rule: join_commas.induct) simp_all

lemma render_seg_snoc: "render_seg (its @ [it]) = render_seg its @ render_item it"
  by (simp add: render_seg_def)

lemma wf_seg_snoc: "wf_seg (its @ [it]) = (wf_seg its \<and> wf_item it)"
  by (simp add: wf_seg_def)

lemma text_step:
  assumes "wf_text sgs final tr"
  shows "\<exists>sgs' final' tr'. wf_text sgs' final' tr' \<and>
           join_commas (pieces sgs final tr) @ [c] = join_commas (pieces sgs' final' tr')"
proof (cases tr)
  case Closed
  from assms Closed have w: "list_all wf_seg sgs" "wf_seg final" by (simp_all add: wf_text_def)
  consider (comma) "c = comma" | (quote) "c = sq \<or> c = dq" | (slash) "c = slash"
    | (plain) "c \<noteq> comma" "c \<noteq> sq" "c \<noteq> dq" "c \<noteq> slash" by blast
  then show ?thesis
  proof cases
    case comma
    have "wf_text (sgs @ [final]) [] Closed" using w by (simp add: wf_text_def wf_seg_def)
    moreover have "join_commas (pieces sgs final tr) @ [c]
        = join_commas (pieces (sgs @ [final]) [] Closed)"
      using Closed comma join_commas_snoc_empty[of "map render_seg sgs" "render_seg final"]
      by (simp add: pieces_def render_seg_def)
    ultimately show ?thesis by blast
  next
    case quote
    have "wf_text sgs final (Open_quote c [])" using w quote by (simp add: wf_text_def)
    moreover have "join_commas (pieces sgs final tr) @ [c]
        = join_commas (pieces sgs final (Open_quote c []))"
      using Closed by (simp add: pieces_def join_commas_snoc_char)
    ultimately show ?thesis by blast
  next
    case slash
    have "wf_text sgs final (Open_regex [] False)" using w by (simp add: wf_text_def)
    moreover have "join_commas (pieces sgs final tr) @ [c]
        = join_commas (pieces sgs final (Open_regex [] False))"
      using Closed slash by (simp add: pieces_def join_commas_snoc_char)
    ultimately show ?thesis by blast
  next
    case plain
    have "wf_text sgs (final @ [Plain c]) Closed"
      using w plain by (simp add: wf_text_def wf_seg_snoc)
    moreover have "join_commas (pieces sgs final tr) @ [c]
        = join_commas (pieces sgs (final @ [Plain c]) Closed)"
      using Closed by (simp add: pieces_def join_commas_snoc_char render_seg_snoc)
    ultimately show ?thesis by blast
  qed
next
  case (Open_quote q body)
  from assms Open_quote have w: "list_all wf_seg sgs" "wf_seg final"
    and q: "q = sq \<or> q = dq" and b: "q \<notin> set body"
    by (simp_all add: wf_text_def)
  show ?thesis
  proof (cases "c = q")
    case True
    have "wf_text sgs (final @ [Quoted q body]) Closed"
      using w q b by (simp add: wf_text_def wf_seg_snoc)
    moreover have "join_commas (pieces sgs final tr) @ [c]
        = join_commas (pieces sgs (final @ [Quoted q body]) Closed)"
      using Open_quote True by (simp add: pieces_def join_commas_snoc_char render_seg_snoc)
    ultimately show ?thesis by blast
  next
    case False
    have "wf_text sgs final (Open_quote q (body @ [c]))"
      using w q b False by (simp add: wf_text_def)
    moreover have "join_commas (pieces sgs final tr) @ [c]
        = join_commas (pieces sgs final (Open_quote q (body @ [c])))"
      using Open_quote by (simp add: pieces_def join_commas_snoc_char)
    ultimately show ?thesis by blast
  qed
next
  case (Open_regex us esc)
  from assms Open_regex have w: "list_all wf_seg sgs" "wf_seg final"
    and u: "list_all wf_unit us"
    by (simp_all add: wf_text_def)
  show ?thesis
  proof (cases esc)
    case True
    have "wf_text sgs final (Open_regex (us @ [REsc c]) False)"
      using w u by (simp add: wf_text_def)
    moreover have "join_commas (pieces sgs final tr) @ [c]
        = join_commas (pieces sgs final (Open_regex (us @ [REsc c]) False))"
      using Open_regex True by (simp add: pieces_def join_commas_snoc_char)
    ultimately show ?thesis by blast
  next
    case False
    consider (bs) "c = bslash" | (sl) "c = slash" | (other) "c \<noteq> bslash" "c \<noteq> slash"
      by blast
    then show ?thesis
    proof cases
      case bs
      have "wf_text sgs final (Open_regex us True)" using w u by (simp add: wf_text_def)
      moreover have "join_commas (pieces sgs final tr) @ [c]
          = join_commas (pieces sgs final (Open_regex us True))"
        using Open_regex False bs by (simp add: pieces_def join_commas_snoc_char)
      ultimately show ?thesis by blast
    next
      case sl
      have "wf_text sgs (final @ [Regex us]) Closed"
        using w u by (simp add: wf_text_def wf_seg_snoc)
      moreover have "join_commas (pieces sgs final tr) @ [c]
          = join_commas (pieces sgs (final @ [Regex us]) Closed)"
        using Open_regex False sl
        by (simp add: pieces_def join_commas_snoc_char render_seg_snoc)
      ultimately show ?thesis by blast
    next
      case other
      have "wf_text sgs final (Open_regex (us @ [RChar c]) False)"
        using w u other by (simp add: wf_text_def)
      moreover have "join_commas (pieces sgs final tr) @ [c]
          = join_commas (pieces sgs final (Open_regex (us @ [RChar c]) False))"
        using Open_regex False by (simp add: pieces_def join_commas_snoc_char)
      ultimately show ?thesis by blast
    qed
  qed
qed

lemma text_complete:
  "\<exists>sgs final tr. wf_text sgs final tr \<and> s = join_commas (pieces sgs final tr)"
proof (induction s rule: rev_induct)
  case Nil
  have "wf_text [] [] Closed" by (simp add: wf_text_def wf_seg_def)
  moreover have "[] = join_commas (pieces [] [] Closed)"
    by (simp add: pieces_def render_seg_def)
  ultimately show ?case by blast
next
  case (snoc c s)
  then obtain sgs final tr where w: "wf_text sgs final tr"
    and s: "s = join_commas (pieces sgs final tr)" by blast
  from text_step[OF w, of c] s show ?case by metis
qed

section \<open>The issues of a validation run\<close>

lemma foldl_append_concat: "foldl (\<lambda>acc e. acc @ f e) a xs = a @ concat (map f xs)"
  by (induction xs arbitrary: a) simp_all

lemma foldl_append_filter:
  "foldl (\<lambda>acc k. if P k then acc @ [g k] else acc) a ks = a @ map g (filter P ks)"
  by (induction ks arbitrary: a) simp_all

lemma issues_validate_env:
  "issues (validate_env lib schema env strict civ) =
     (if strict then map unknown_issue (unknown_keys schema env) else [])
     @ concat (map (check_option lib civ env) schema)"
  by (simp add: validate_env_def Let_def foldl_append_concat foldl_append_filter
      unknown_keys_def)

lemma check_option_cases:
  "check_option lib civ env (nm, opt) = [] \<or>
   (\<exists>i. check_option lib civ env (nm, opt) = [i] \<and> setting i = Some nm \<and>
        (code i = Missing \<or> code i = Type_mismatch \<or> code i = Invalid_value))"
  by (auto simp: check_option_def Let_def missing_issue_def type_mismatch_issue_def
      invalid_value_issue_def split: option.splits sum.splits)

lemma check_option_setting:
  "i \<in> set (check_option lib civ env (nm, opt)) \<Longrightarrow> setting i = Some nm"
  using check_option_cases[of lib civ env nm opt] by auto

lemma filter_other_entry:
  "nm' \<noteq> nm \<Longrightarrow> filter (\<lambda>i. setting i = Some nm) (check_option lib civ env (nm', opt)) = []"
  by (auto simp: filter_empty_conv dest: check_option_setting)

lemma filter_own_entry:
  "filter (\<lambda>i. setting i = Some nm) (check_option lib civ env (nm, opt))
     = check_option lib civ env (nm, opt)"
  by (auto simp: filter_id_conv dest: check_option_setting)

lemma filter_concat_entry:
  "distinct (map fst schema) \<Longrightarrow> (nm, opt) \<in> set schema \<Longrightarrow>
   filter (\<lambda>i. setting i = Some nm) (concat (map (check_option lib civ env) schema))
     = check_option lib civ env (nm, opt)"
proof (induction schema)
  case Nil
  then show ?case by simp
next
  case (Cons e es)
  obtain n' o' where e: "e = (n', o')" by (cases e)
  show ?case
  proof (cases "n' = nm")
    case True
    with Cons.prems e have eq: "o' = opt" and notin: "nm \<notin> fst ` set es"
      by (auto simp: rev_image_eqI)
    have "filter (\<lambda>i. setting i = Some nm) (concat (map (check_option lib civ env) es)) = []"
      using notin by (induction es) (auto simp: filter_other_entry)
    then show ?thesis using e True eq by (simp add: filter_own_entry)
  next
    case False
    with Cons.prems e have "(nm, opt) \<in> set es" "distinct (map fst es)" by auto
    with Cons.IH have "filter (\<lambda>i. setting i = Some nm)
        (concat (map (check_option lib civ env) es)) = check_option lib civ env (nm, opt)"
      by simp
    then show ?thesis using e False by (simp add: filter_other_entry)
  qed
qed

lemma unknown_keys_set:
  "set (unknown_keys schema env) = fst ` set env - fst ` set schema"
  by (auto simp: unknown_keys_def map_of_eq_None_iff)

lemma filter_unknown_entry:
  "(nm, opt) \<in> set schema \<Longrightarrow>
   filter (\<lambda>i. setting i = Some nm) (map unknown_issue (unknown_keys schema env)) = []"
proof -
  assume "(nm, opt) \<in> set schema"
  then have "nm \<in> fst ` set schema" by (simp add: rev_image_eqI)
  then have "nm \<notin> set (unknown_keys schema env)" by (simp add: unknown_keys_set)
  then show ?thesis by (auto simp: filter_empty_conv unknown_issue_def)
qed

lemma issues_for_option:
  "distinct (map fst schema) \<Longrightarrow> (nm, opt) \<in> set schema \<Longrightarrow>
   filter (\<lambda>i. setting i = Some nm) (issues (validate_env lib schema env strict civ))
     = check_option lib civ env (nm, opt)"
  by (simp add: issues_validate_env filter_concat_entry filter_unknown_entry)

lemma unknown_keys_sorted_list:
  "distinct (map fst env) \<Longrightarrow>
   unknown_keys schema env = sorted_list_of_set (fst ` set env - fst ` set schema)"
proof -
  assume d: "distinct (map fst env)"
  let ?P = "\<lambda>k. map_of schema k = None"
  have "unknown_keys schema env = sort (filter ?P (map fst env))"
    by (simp add: unknown_keys_def filter_sort)
  also have "\<dots> = sorted_list_of_set (set (filter ?P (map fst env)))"
  proof -
    have "distinct (filter ?P (map fst env))" using d by (rule distinct_filter)
    then have "remdups (filter ?P (map fst env)) = filter ?P (map fst env)"
      by (rule distinct_remdups_id)
    then have "sort (remdups (filter ?P (map fst env))) = sort (filter ?P (map fst env))"
      by (rule arg_cong)
    then show ?thesis
      by (simp only: sorted_list_of_set_sort_remdups)
  qed
  also have "set (filter ?P (map fst env)) = fst ` set env - fst ` set schema"
    by (auto simp: map_of_eq_None_iff)
  finally show ?thesis .
qed

lemma regex_compare_spec:
  "regex_compare lib raw_value pairs =
     ((\<exists>p \<in> set pairs. fullmatch lib (fst p) raw_value), tried lib raw_value pairs)"
  by (induction pairs) (auto simp: tried_def split: prod.splits)

lemma tried_Nil [simp]: "tried lib raw_value [] = []"
  by (simp add: tried_def)

lemma allowed_check_spec:
  assumes "literals = (case valid_literals opt of None \<Rightarrow> [] | Some ls \<Rightarrow> ls)"
    and "pairs = (case compiled_regex opt of None \<Rightarrow> [] | Some ps \<Rightarrow> ps)"
    and "lit_ok = (literals \<noteq> [] \<and>
           literal_compare lib civ (type_name opt) literals py_val canon_str)"
  shows "allowed_check lib civ opt raw_value py_val canon_str =
           (lit_ok \<or> (\<exists>p \<in> set pairs. fullmatch lib (fst p) raw_value),
            if lit_ok then [] else tried lib raw_value pairs)"
proof -
  have a: "allowed_check lib civ opt raw_value py_val canon_str =
      (if \<not> lit_ok \<and> pairs \<noteq> [] then regex_compare lib raw_value pairs else (lit_ok, []))"
    unfolding allowed_check_def Let_def assms by simp
  show ?thesis
  proof (cases lit_ok)
    case True
    then show ?thesis unfolding a by simp
  next
    case False
    then show ?thesis unfolding a by (cases "pairs = []") (simp_all add: regex_compare_spec)
  qed
qed

lemma coerce_typed:
  assumes "ty = ''bool'' \<or> ty = ''int'' \<or> ty = ''float''"
    and "coerce_by_type lib x ty = Inr (v, c)"
  shows "\<forall>s. v \<noteq> PStr s"
  using assms
  by (auto simp: coerce_by_type_def coerce_bool_def coerce_int_def coerce_float_def Let_def
      split: if_splits option.splits)

lemma py_eq_PStr: "\<forall>s. v \<noteq> PStr s \<Longrightarrow> py_eq lib (PStr l) v = False"
  by (cases v) simp_all

lemma normalize_typed:
  assumes "ty = ''bool'' \<or> ty = ''int'' \<or> ty = ''float''"
  shows "normalize_literal_for_type lib lit ty =
           (case coerce_by_type lib lit ty of Inr (v', c') \<Rightarrow> v' | Inl e \<Rightarrow> PStr lit)"
  using assms by (auto simp: normalize_literal_for_type_def split: sum.splits)

lemma typed_literal_compare:
  assumes "ty = ''bool'' \<or> ty = ''int'' \<or> ty = ''float''"
    and "coerce_by_type lib raw_value ty = Inr (py_val, canon_str)"
  shows "literal_compare lib civ ty ls py_val canon_str
           = (\<exists>lit \<in> set ls. \<exists>v' c'.
                coerce_by_type lib lit ty = Inr (v', c') \<and> py_eq lib v' py_val)"
proof -
  have ns: "\<forall>s. py_val \<noteq> PStr s" using assms by (rule coerce_typed)
  have one: "\<And>lit. py_eq lib (normalize_literal_for_type lib lit ty) py_val
      = (\<exists>v' c'. coerce_by_type lib lit ty = Inr (v', c') \<and> py_eq lib v' py_val)"
    using assms(1) ns by (auto simp: normalize_typed py_eq_PStr split: sum.splits)
  show ?thesis
    using assms(1) by (auto simp: literal_compare_def py_in_def list_ex_iff one)
qed

lemmas coerce_eval = coerce_by_type_def coerce_int_def coerce_bool_def demo_lib_def strip_def
  lstrip_def rstrip_def is_space_def is_digit_def digits_value_def show_int_def Let_def
  lower_def lower_char_def BOOL_TRUE_def BOOL_FALSE_def

section \<open>The first \<open>#\<close> of a value\<close>

lemma find_hash_None: "(find_hash s = None) = (hash \<notin> set s)"
  by (induction s) auto

lemma find_hash_Some: "find_hash s = Some n \<Longrightarrow> take n s = takeWhile (\<lambda>c. c \<noteq> hash) s"
  by (induction s arbitrary: n) (auto split: if_splits)

lemma first_hash_unique:
  "s = a @ hash # b \<Longrightarrow> hash \<notin> set a \<Longrightarrow> takeWhile (\<lambda>c. c \<noteq> hash) s = a"
  by (auto simp: takeWhile_tail)

lemma first_hash_decomp:
  "hash \<in> set s \<Longrightarrow> \<exists>b. s = takeWhile (\<lambda>c. c \<noteq> hash) s @ hash # b"
proof -
  assume h: "hash \<in> set s"
  let ?d = "dropWhile (\<lambda>c. c \<noteq> hash) s"
  from h have "?d \<noteq> []" by auto
  moreover then have "hd ?d = hash" using hd_dropWhile[of "\<lambda>c. c \<noteq> hash" s] by simp
  ultimately have "?d = hash # tl ?d" by (cases ?d) auto
  then have "s = takeWhile (\<lambda>c. c \<noteq> hash) s @ hash # tl ?d"
    by (metis takeWhile_dropWhile_id)
  then show ?thesis by blast
qed

section \<open>The meta lines of a block\<close>

lemma meta_step_required:
  "\<not> is_required_line rl meta_line \<Longrightarrow>
   meta_required (fst (meta_step rl setting_name meta meta_line)) = meta_required meta"
  by (auto simp: meta_step_def is_required_line_def split: option.splits sum.splits prod.splits)

lemma foldl_block_required:
  "\<forall>l \<in> set ls. \<not> is_required_line rl l \<Longrightarrow>
   meta_required
     (fst (foldl (\<lambda>(meta, iss) meta_line.
                    (let (meta', new) = meta_step rl setting_name meta meta_line
                     in (meta', iss @ new))) (meta0, iss0) ls))
     = meta_required meta0"
proof (induction ls arbitrary: meta0 iss0)
  case Nil
  then show ?case by simp
next
  case (Cons l ls)
  obtain m1 n1 where s: "meta_step rl setting_name meta0 l = (m1, n1)"
    by (cases "meta_step rl setting_name meta0 l")
  from Cons.prems have nl: "\<not> is_required_line rl l" and rest: "\<forall>l \<in> set ls. \<not> is_required_line rl l"
    by simp_all
  from meta_step_required[OF nl, of setting_name meta0] s
  have m1: "meta_required m1 = meta_required meta0" by simp
  from Cons.IH[OF rest, of m1 "iss0 @ n1"] m1 s show ?case by simp
qed

lemma block_without_required_line:
  "\<forall>l \<in> set ls. \<not> is_required_line rl l \<Longrightarrow>
   required (build_option setting_name (fst (block_fold rl setting_name ls))) = False"
proof -
  assume a: "\<forall>l \<in> set ls. \<not> is_required_line rl l"
  have "meta_required (fst (block_fold rl setting_name ls)) = meta_required (meta_init :: 'a meta)"
    unfolding block_fold_def using a by (rule foldl_block_required)
  then show ?thesis by (simp add: build_option_def Let_def meta_init_def)
qed

lemma meta_step_default_kept:
  "\<not> is_default_line rl meta_line \<Longrightarrow>
   meta_default (fst (meta_step rl setting_name meta meta_line)) = meta_default meta"
  by (auto simp: meta_step_def is_default_line_def split: option.splits sum.splits prod.splits)

lemma meta_step_default_set:
  "name_re rl meta_line = None \<Longrightarrow> default_re rl meta_line = Some token \<Longrightarrow>
   meta_step rl setting_name meta meta_line
     = (meta\<lparr>meta_default := fst (parse_default_value_with_quote_info token),
              meta_default_was_quoted := snd (parse_default_value_with_quote_info token)\<rparr>,
        [])"
  by (simp add: meta_step_def split: prod.splits)

lemma foldl_block_default_kept:
  "\<forall>l \<in> set ls. \<not> is_default_line rl l \<Longrightarrow>
   meta_default
     (fst (foldl (\<lambda>(meta, iss) meta_line.
                    (let (meta', new) = meta_step rl setting_name meta meta_line
                     in (meta', iss @ new))) (meta0, iss0) ls))
     = meta_default meta0"
proof (induction ls arbitrary: meta0 iss0)
  case Nil
  then show ?case by simp
next
  case (Cons l ls)
  obtain m1 n1 where s: "meta_step rl setting_name meta0 l = (m1, n1)"
    by (cases "meta_step rl setting_name meta0 l")
  from Cons.prems have nl: "\<not> is_default_line rl l" and rest: "\<forall>l \<in> set ls. \<not> is_default_line rl l"
    by simp_all
  from meta_step_default_kept[OF nl, of setting_name meta0] s
  have m1: "meta_default m1 = meta_default meta0" by simp
  from Cons.IH[OF rest, of m1 "iss0 @ n1"] m1 s show ?case by simp
qed

lemma block_last_default_line:
  assumes "name_re rl l = None" and "default_re rl l = Some token"
    and "\<forall>x \<in> set later. \<not> is_default_line rl x"
  shows "default_value (build_option setting_name
           (fst (block_fold rl setting_name (earlier @ l # later))))
         = fst (parse_default_value_with_quote_info token)"
proof -
  let ?f = "\<lambda>(meta, iss) meta_line.
              (let (meta', new) = meta_step rl setting_name meta meta_line
               in (meta', iss @ new))"
  obtain m0 i0 where e: "foldl ?f (meta_init, []) earlier = (m0, i0)"
    by (cases "foldl ?f (meta_init, []) earlier")
  let ?m1 = "m0\<lparr>meta_default := fst (parse_default_value_with_quote_info token),
              meta_default_was_quoted := snd (parse_default_value_with_quote_info token)\<rparr>"
  have st: "?f (m0, i0) l = (?m1, i0)"
    using meta_step_default_set[OF assms(1,2), of setting_name m0] by simp
  have "foldl ?f (meta_init, []) (earlier @ l # later) = foldl ?f (?m1, i0) later"
    using e st by simp
  then have "meta_default (fst (block_fold rl setting_name (earlier @ l # later)))
      = meta_default ?m1"
    unfolding block_fold_def using foldl_block_default_kept[OF assms(3), of setting_name ?m1 i0]
    by simp
  then show ?thesis by (simp add: build_option_def Let_def)
qed

section \<open>Claims\<close>

subsection \<open>C1: a value that fails type coercion\<close>

text \<open>
  C1. For every schema option whose key is present in the configuration and whose value
  fails type coercion, the issues of \<open>validate_env\<close> for that key are exactly one
  issue, an error with code \<open>type_mismatch\<close>; no \<open>invalid_value\<close> issue for the key is in
  the same run, whatever literals or patterns the option declares.
\<close>

theorem type_mismatch_suppresses_invalid_value:
  assumes "distinct (map fst schema)" and "(nm, opt) \<in> set schema"
    and "map_of env nm = Some raw_value"
    and "coerce_by_type lib raw_value (type_name opt) = Inl e"
  shows "filter (\<lambda>i. setting i = Some nm) (issues (validate_env lib schema env strict civ))
           = [type_mismatch_issue nm opt raw_value e]
         \<and> level (type_mismatch_issue nm opt raw_value e) = Error
         \<and> code (type_mismatch_issue nm opt raw_value e) = Type_mismatch
         \<and> filter (\<lambda>i. setting i = Some nm \<and> code i = Invalid_value)
              (issues (validate_env lib schema env strict civ)) = []"
proof -
  let ?is = "issues (validate_env lib schema env strict civ)"
  let ?t = "type_mismatch_issue nm opt raw_value e"
  have c: "check_option lib civ env (nm, opt) = [?t]"
    using assms(3,4) by (simp add: check_option_def)
  have f: "filter (\<lambda>i. setting i = Some nm) ?is = [?t]"
    by (simp add: issues_for_option[OF assms(1,2)] c)
  have tc: "code ?t = Type_mismatch" "level ?t = Error"
    by (simp_all add: type_mismatch_issue_def)
  have "filter (\<lambda>i. setting i = Some nm \<and> code i = Invalid_value) ?is
          = filter (\<lambda>i. code i = Invalid_value) (filter (\<lambda>i. setting i = Some nm) ?is)"
    by (simp add: conj_commute)
  also have "\<dots> = []" using f tc by simp
  finally show ?thesis using f tc by simp
qed

text \<open>An instance: \<open>PORT=eighty\<close> for the integer option \<open>PORT\<close>, which declares literals
  and a pattern.\<close>

theorem type_mismatch_witness:
  "filter (\<lambda>i. setting i = Some ''PORT'')
     (issues (validate_env demo_lib demo_schema [(''PORT'', ''eighty'')] True True))
   = [type_mismatch_issue ''PORT'' port_option ''eighty''
        ''expected an integer (e.g., -10, 0, 42)'']"
proof -
  have d: "distinct (map fst demo_schema)" by (simp add: demo_schema_def)
  have m: "(''PORT'', port_option) \<in> set demo_schema" by (simp add: demo_schema_def)
  have p: "map_of [(''PORT'', ''eighty'')] ''PORT'' = Some ''eighty''" by simp
  have c: "coerce_by_type demo_lib ''eighty'' (type_name port_option)
             = Inl ''expected an integer (e.g., -10, 0, 42)''"
    by code_simp
  from type_mismatch_suppresses_invalid_value[OF d m p c, of True True]
  show ?thesis by blast
qed

subsection \<open>C2: an absent key\<close>

text \<open>
  C2. For every schema option whose key is absent from the configuration, the issues of
  \<open>validate_env\<close> for that key are exactly one \<open>missing\<close> issue: an error if the option
  is required (whether or not it has a default, which is only reported in the details),
  a warning otherwise.
\<close>

theorem absent_key_one_missing_issue:
  assumes "distinct (map fst schema)" and "(nm, opt) \<in> set schema"
    and "map_of env nm = None"
  shows "filter (\<lambda>i. setting i = Some nm) (issues (validate_env lib schema env strict civ))
           = [missing_issue nm opt]
         \<and> code (missing_issue nm opt) = Missing
         \<and> level (missing_issue nm opt) = (if required opt then Error else Warning)"
proof -
  have c: "check_option lib civ env (nm, opt) = [missing_issue nm opt]"
    using assms(3) by (simp add: check_option_def)
  have "filter (\<lambda>i. setting i = Some nm) (issues (validate_env lib schema env strict civ))
          = [missing_issue nm opt]"
    by (simp add: issues_for_option[OF assms(1,2)] c)
  then show ?thesis by (simp add: missing_issue_def)
qed

text \<open>An instance: a required option with a default and an optional one, both absent.\<close>

theorem absent_key_witness:
  "filter (\<lambda>i. setting i = Some ''PORT'')
     (issues (validate_env demo_lib [(''PORT'', port_default_option), (''DEBUG'', debug_option)]
        [(''FOO'', ''bar'')] True True))
     = [missing_issue ''PORT'' port_default_option]
   \<and> level (missing_issue ''PORT'' port_default_option) = Error
   \<and> filter (\<lambda>i. setting i = Some ''DEBUG'')
     (issues (validate_env demo_lib [(''PORT'', port_default_option), (''DEBUG'', debug_option)]
        [(''FOO'', ''bar'')] True True))
     = [missing_issue ''DEBUG'' debug_option]
   \<and> level (missing_issue ''DEBUG'' debug_option) = Warning"
proof -
  let ?schema = "[(''PORT'', port_default_option), (''DEBUG'', debug_option)]"
  have d: "distinct (map fst ?schema)" by simp
  have m1: "(''PORT'', port_default_option) \<in> set ?schema" by simp
  have m2: "(''DEBUG'', debug_option) \<in> set ?schema" by simp
  have a1: "map_of [(''FOO'', ''bar'')] ''PORT'' = None" by simp
  have a2: "map_of [(''FOO'', ''bar'')] ''DEBUG'' = None" by simp
  have r1: "required port_default_option" by (simp add: port_default_option_def port_option_def)
  have r2: "\<not> required debug_option" by (simp add: debug_option_def)
  from absent_key_one_missing_issue[OF d m1 a1, of demo_lib True True]
       absent_key_one_missing_issue[OF d m2 a2, of demo_lib True True] r1 r2
  show ?thesis by simp
qed

subsection \<open>C3: the order of the issues\<close>

text \<open>
  C3, as the code has it. The issues of \<open>validate_env\<close> are, first, the issues of the
  unknown-key pass when \<open>strict_unknown\<close> is set: one \<open>error/unknown\<close> per configuration
  key absent from the schema, in sorted key order; then the issues of the schema
  options, in schema iteration order.
\<close>

theorem unknown_pass_first:
  assumes "distinct (map fst env)"
  shows "issues (validate_env lib schema env strict civ) =
           (if strict
            then map unknown_issue (sorted_list_of_set (fst ` set env - fst ` set schema))
            else [])
           @ concat (map (check_option lib civ env) schema)"
  using assms by (simp add: issues_validate_env unknown_keys_sorted_list)

text \<open>An instance: two undeclared keys in unsorted order, one declared key present and
  valid, one optional option absent.\<close>

theorem unknown_pass_first_witness:
  "issues (validate_env demo_lib demo_schema
       [(''ZED'', ''1''), (''PORT'', ''80''), (''FOO'', ''bar'')] True True)
    = [unknown_issue ''FOO'', unknown_issue ''ZED'', missing_issue ''DEBUG'' debug_option]"
proof -
  let ?env = "[(''ZED'', ''1''), (''PORT'', ''80''), (''FOO'', ''bar'')]"
  have d: "distinct (map fst ?env)" by simp
  have s: "fst ` set ?env - fst ` set demo_schema = {''FOO'', ''ZED''}"
    by (auto simp: demo_schema_def)
  have l: "sorted_list_of_set {''FOO'', ''ZED''} = [''FOO'', ''ZED'']"
    by code_simp
  have c: "concat (map (check_option demo_lib True ?env) demo_schema)
             = [missing_issue ''DEBUG'' debug_option]"
    by code_simp
  from unknown_pass_first[OF d, of demo_lib demo_schema True True] s l c
  show ?thesis by simp
qed

text \<open>The order that puts the schema options first fails: with one absent optional
  option and one undeclared key, the unknown-key issue comes first.\<close>

theorem unknown_after_schema_counterexample:
  "issues (validate_env demo_lib [(''DEBUG'', debug_option)] [(''FOO'', ''bar'')] True True)
     = [unknown_issue ''FOO'', missing_issue ''DEBUG'' debug_option]
   \<and> issues (validate_env demo_lib [(''DEBUG'', debug_option)] [(''FOO'', ''bar'')] True True)
     \<noteq> [missing_issue ''DEBUG'' debug_option, unknown_issue ''FOO'']"
proof -
  have e: "issues (validate_env demo_lib [(''DEBUG'', debug_option)] [(''FOO'', ''bar'')]
             True True) = [unknown_issue ''FOO'', missing_issue ''DEBUG'' debug_option]"
    by code_simp
  have "code (unknown_issue ''FOO'') \<noteq> code (missing_issue ''DEBUG'' debug_option)"
    by (simp add: unknown_issue_def missing_issue_def)
  then have "unknown_issue ''FOO'' \<noteq> missing_issue ''DEBUG'' debug_option" by auto
  with e show ?thesis by simp
qed

subsection \<open>C4: the default \<open>None\<close>\<close>

text \<open>
  C4, as the code has it. A default value is absent exactly when the captured value,
  without surrounding whitespace and trailing commas, is \<open>none\<close> in any letter case; the
  bare \<open>None\<close> is such a value, the quoted \<open>'None'\<close> is the string \<open>None\<close>, and the
  quoted empty string is an empty default, not an absent one. A default line sets the
  default and its quote flag and nothing else; the default of the assembled option is
  the one of the last default line of its block; an option whose block has no
  \<open>required\<close> line is optional, whatever its default line says, and in general the
  option is required exactly when the recorded requiredness is true.
\<close>

theorem default_none_is_absent:
  "(\<forall>token. (fst (parse_default_value_with_quote_info token) = None)
              = (lower (rstrip_char comma (strip token)) = ''none''))
   \<and> parse_default_value_with_quote_info ''None'' = (None, False)
   \<and> parse_default_value_with_quote_info (sq # ''None'' @ [sq]) = (Some ''None'', True)
   \<and> parse_default_value_with_quote_info [sq, sq] = (Some [], True)
   \<and> (\<forall>rl setting_name meta meta_line token.
         name_re rl meta_line = None \<and> default_re rl meta_line = Some token \<longrightarrow>
         meta_step rl setting_name meta meta_line
           = (meta\<lparr>meta_default := fst (parse_default_value_with_quote_info token),
                    meta_default_was_quoted :=
                      snd (parse_default_value_with_quote_info token)\<rparr>, []))
   \<and> (\<forall>rl setting_name earlier l later token.
         name_re rl l = None \<and> default_re rl l = Some token \<and>
         (\<forall>x \<in> set later. \<not> is_default_line rl x) \<longrightarrow>
         default_value (build_option setting_name
            (fst (block_fold rl setting_name (earlier @ l # later))))
           = fst (parse_default_value_with_quote_info token))
   \<and> (\<forall>rl setting_name ls.
         (\<forall>x \<in> set ls. \<not> is_required_line rl x) \<longrightarrow>
         required (build_option setting_name
            (fst (block_fold rl setting_name ls) :: 'r meta)) = False)
   \<and> (\<forall>setting_name meta.
         required (build_option setting_name (meta :: 'r meta))
           = (meta_required meta = Some True))"
proof -
  have a: "\<forall>token. (fst (parse_default_value_with_quote_info token) = None)
              = (lower (rstrip_char comma (strip token)) = ''none'')"
    by (simp add: parse_default_value_with_quote_info_def Let_def)
  have b: "parse_default_value_with_quote_info ''None'' = (None, False)"
    by code_simp
  have c: "parse_default_value_with_quote_info (sq # ''None'' @ [sq]) = (Some ''None'', True)"
    by code_simp
  have d: "parse_default_value_with_quote_info [sq, sq] = (Some [], True)"
    by code_simp
  have e: "\<forall>rl setting_name meta meta_line token.
         name_re rl meta_line = None \<and> default_re rl meta_line = Some token \<longrightarrow>
         meta_step rl setting_name meta meta_line
           = (meta\<lparr>meta_default := fst (parse_default_value_with_quote_info token),
                    meta_default_was_quoted :=
                      snd (parse_default_value_with_quote_info token)\<rparr>, [])"
    using meta_step_default_set by blast
  have f: "\<forall>rl setting_name earlier l later token.
         name_re rl l = None \<and> default_re rl l = Some token \<and>
         (\<forall>x \<in> set later. \<not> is_default_line rl x) \<longrightarrow>
         default_value (build_option setting_name
            (fst (block_fold rl setting_name (earlier @ l # later))))
           = fst (parse_default_value_with_quote_info token)"
    using block_last_default_line by blast
  have g: "\<forall>rl setting_name ls.
         (\<forall>x \<in> set ls. \<not> is_required_line rl x) \<longrightarrow>
         required (build_option setting_name
            (fst (block_fold rl setting_name ls) :: 'r meta)) = False"
    using block_without_required_line by blast
  have h: "\<forall>setting_name meta.
         required (build_option setting_name (meta :: 'r meta))
           = (meta_required meta = Some True)"
    by (auto simp: build_option_def Let_def split: option.splits)
  from a b c d e f g h show ?thesis by blast
qed

text \<open>An instance: a block with the lines \<open>default=None\<close> and \<open>type=bool\<close>.\<close>

theorem default_none_witness:
  "default_value (build_option ''DEBUG''
      (fst (block_fold demo_relib ''DEBUG'' [''#    default=None'', ''#    type=bool''])))
     = None
   \<and> required (build_option ''DEBUG''
      (fst (block_fold demo_relib ''DEBUG'' [''#    default=None'', ''#    type=bool''])))
     = False"
proof -
  let ?l = "''#    default=None''"
  let ?later = "[''#    type=bool'']"
  have n: "name_re demo_relib ?l = None" by (simp add: demo_relib_def)
  have d: "default_re demo_relib ?l = Some ''None''"
    by (simp add: demo_relib_def after_def)
  have nd: "\<forall>x \<in> set ?later. \<not> is_default_line demo_relib x"
    by (simp add: is_default_line_def demo_relib_def after_def)
  have nr: "\<forall>x \<in> set (?l # ?later). \<not> is_required_line demo_relib x"
    by (simp add: is_required_line_def demo_relib_def after_def)
  have p: "fst (parse_default_value_with_quote_info ''None'') = None" by code_simp
  have dv: "default_value (build_option ''DEBUG''
      (fst (block_fold demo_relib ''DEBUG'' ([] @ ?l # ?later))))
      = fst (parse_default_value_with_quote_info ''None'')"
    using default_none_is_absent n d nd by blast
  have rq: "required (build_option ''DEBUG''
      (fst (block_fold demo_relib ''DEBUG'' (?l # ?later)))) = False"
    using default_none_is_absent nr by blast
  from dv rq p show ?thesis by simp
qed

text \<open>The lower-case \<open>none\<close> is not the token \<open>None\<close> and gives an absent default as
  well.\<close>

theorem default_none_case_counterexample:
  "parse_default_value_with_quote_info ''none'' = (None, False) \<and> ''none'' \<noteq> ''None''"
  by code_simp

subsection \<open>C5: an unquoted \<open>.env\<close> value\<close>

text \<open>
  C5, as the code has it. Let \<open>s\<close> be the value without its line end and surrounding
  whitespace, non-empty and not starting with a quote character. If the first \<open>#\<close> of
  \<open>s\<close> comes right after a space or a tab, the value is cut there; if no \<open>#\<close> of \<open>s\<close>
  comes right after a space or a tab, nothing is cut. The rest is trimmed, and the final
  pass removes every leading and trailing single quote and then every leading and
  trailing double quote, which for such a value are the trailing ones only. The result
  is not empty, starts with the first character of \<open>s\<close> and does not end with a double
  quote.
\<close>

theorem parse_env_value_unquoted:
  assumes "s = strip (rstrip_char (CHR 0x0D) (rstrip_char (CHR 0x0A) raw))"
    and "s \<noteq> []" and "hd s \<noteq> sq" and "hd s \<noteq> dq"
  shows "(\<forall>a b. s = a @ hash # b \<and> hash \<notin> set a \<and> a \<noteq> [] \<and>
                 (last a = CHR '' '' \<or> last a = CHR 0x09) \<longrightarrow>
            parse_env_value raw = strip_char dq (strip_char sq (strip a)) \<and>
            parse_env_value raw = rstrip_char dq (rstrip_char sq (strip a)))
         \<and> ((\<forall>a b. s = a @ hash # b \<longrightarrow>
                  a = [] \<or> (last a \<noteq> CHR '' '' \<and> last a \<noteq> CHR 0x09)) \<longrightarrow>
            parse_env_value raw = strip_char dq (strip_char sq s) \<and>
            parse_env_value raw = rstrip_char dq (rstrip_char sq s))
         \<and> parse_env_value raw \<noteq> []
         \<and> hd (parse_env_value raw) = hd s
         \<and> last (parse_env_value raw) \<noteq> dq"
proof -
  define cut where "cut =
     (case find_hash s of
        None \<Rightarrow> s
      | Some hash_pos \<Rightarrow>
          (let before_hash = take hash_pos s
           in if before_hash \<noteq> [] \<and>
                 (last before_hash = CHR '' '' \<or> last before_hash = CHR 0x09)
              then strip before_hash else s))"
  have pv: "parse_env_value raw = strip_char dq (strip_char sq (strip cut))"
    using assms(2,3,4) unfolding parse_env_value_def assms(1)[symmetric] cut_def
    by (simp add: Let_def)
  have sns: "\<not> is_space (hd s)" using assms(1,2) strip_hd by blast
  have ss: "strip s = s" unfolding assms(1) by (rule strip_strip)
  let ?a = "takeWhile (\<lambda>c. c \<noteq> hash) s"
  have cut_cases: "cut = s \<or> (cut = strip ?a \<and> ?a \<noteq> [])"
    by (auto simp: cut_def Let_def find_hash_Some split: option.splits)
  have hd_a: "?a \<noteq> [] \<Longrightarrow> hd ?a = hd s" using assms(2) by (cases s) (auto split: if_splits)
  have sc: "strip cut \<noteq> [] \<and> hd (strip cut) = hd s"
  proof -
    from cut_cases show ?thesis
    proof
      assume "cut = s"
      then show ?thesis using ss assms(2) by simp
    next
      assume c: "cut = strip ?a \<and> ?a \<noteq> []"
      then have "\<not> is_space (hd ?a)" using hd_a sns by simp
      with c have "strip ?a \<noteq> [] \<and> hd (strip ?a) = hd ?a" using strip_keeps_hd by blast
      with c hd_a show ?thesis by (simp add: strip_strip)
    qed
  qed
  then have t: "strip cut \<noteq> []" "hd (strip cut) \<noteq> sq" "hd (strip cut) \<noteq> dq"
    using assms(3,4) by simp_all
  from final_pass[OF t] pv sc
  have fin: "parse_env_value raw = rstrip_char dq (rstrip_char sq (strip cut))"
    "parse_env_value raw \<noteq> []" "hd (parse_env_value raw) = hd s"
    "last (parse_env_value raw) \<noteq> dq"
    by simp_all
  have c1: "\<forall>a b. s = a @ hash # b \<and> hash \<notin> set a \<and> a \<noteq> [] \<and>
                 (last a = CHR '' '' \<or> last a = CHR 0x09) \<longrightarrow>
            parse_env_value raw = strip_char dq (strip_char sq (strip a)) \<and>
            parse_env_value raw = rstrip_char dq (rstrip_char sq (strip a))"
  proof (intro allI impI)
    fix a b
    assume h: "s = a @ hash # b \<and> hash \<notin> set a \<and> a \<noteq> [] \<and>
                 (last a = CHR '' '' \<or> last a = CHR 0x09)"
    then have ta: "?a = a" using first_hash_unique by blast
    from h have "hash \<in> set s" by auto
    then obtain n where n: "find_hash s = Some n" using find_hash_None[of s] by auto
    then have "take n s = a" using find_hash_Some ta by simp
    with n h have "cut = strip a" by (simp add: cut_def Let_def)
    then show "parse_env_value raw = strip_char dq (strip_char sq (strip a)) \<and>
        parse_env_value raw = rstrip_char dq (rstrip_char sq (strip a))"
      using fin(1) pv by (simp add: strip_strip)
  qed
  have c2: "(\<forall>a b. s = a @ hash # b \<longrightarrow>
                  a = [] \<or> (last a \<noteq> CHR '' '' \<and> last a \<noteq> CHR 0x09)) \<longrightarrow>
            parse_env_value raw = strip_char dq (strip_char sq s) \<and>
            parse_env_value raw = rstrip_char dq (rstrip_char sq s)"
  proof
    assume h: "\<forall>a b. s = a @ hash # b \<longrightarrow>
        a = [] \<or> (last a \<noteq> CHR '' '' \<and> last a \<noteq> CHR 0x09)"
    have "cut = s"
    proof (cases "find_hash s")
      case None
      then show ?thesis by (simp add: cut_def)
    next
      case (Some n)
      then have tk: "take n s = ?a" by (rule find_hash_Some)
      from Some have "hash \<in> set s" using find_hash_None[of s] by auto
      then obtain b where "s = ?a @ hash # b" using first_hash_decomp by blast
      with h have "?a = [] \<or> (last ?a \<noteq> CHR '' '' \<and> last ?a \<noteq> CHR 0x09)" by blast
      with Some tk show ?thesis by (auto simp: cut_def Let_def)
    qed
    then show "parse_env_value raw = strip_char dq (strip_char sq s) \<and>
        parse_env_value raw = rstrip_char dq (rstrip_char sq s)"
      using fin(1) pv ss by simp
  qed
  from c1 c2 fin show ?thesis by blast
qed

text \<open>An instance: a value with an inline comment, and a value whose only \<open>#\<close> follows
  a letter and which ends in two double quotes.\<close>

theorem parse_env_value_unquoted_witness:
  "parse_env_value (''abc'' @ [sq] @ ''  # note'') = ''abc''
   \<and> parse_env_value (''a#b'' @ [dq, dq]) = ''a#b''"
proof -
  let ?r1 = "''abc'' @ [sq] @ ''  # note''"
  let ?r2 = "''a#b'' @ [dq, dq]"
  have s1: "?r1 = strip (rstrip_char (CHR 0x0D) (rstrip_char (CHR 0x0A) ?r1))" by code_simp
  have s2: "?r2 = strip (rstrip_char (CHR 0x0D) (rstrip_char (CHR 0x0A) ?r2))" by code_simp
  have d1: "?r1 = (''abc'' @ [sq] @ ''  '') @ hash # '' note'' \<and> hash \<notin> set (''abc'' @ [sq] @ ''  '')
      \<and> ''abc'' @ [sq] @ ''  '' \<noteq> []
      \<and> (last (''abc'' @ [sq] @ ''  '') = CHR '' '' \<or> last (''abc'' @ [sq] @ ''  '') = CHR 0x09)"
    by simp
  have e1: "rstrip_char dq (rstrip_char sq (strip (''abc'' @ [sq] @ ''  ''))) = ''abc''"
    by code_simp
  have d2: "\<forall>a b. ?r2 = a @ hash # b \<longrightarrow> a = [] \<or> (last a \<noteq> CHR '' '' \<and> last a \<noteq> CHR 0x09)"
  proof (intro allI impI)
    fix a b assume "?r2 = a @ hash # b"
    then have "a = ''a''" by (auto simp: append_eq_Cons_conv Cons_eq_append_conv)
    then show "a = [] \<or> (last a \<noteq> CHR '' '' \<and> last a \<noteq> CHR 0x09)" by simp
  qed
  have e2: "rstrip_char dq (rstrip_char sq ?r2) = ''a#b''" by code_simp
  have n1: "?r1 \<noteq> []" "hd ?r1 \<noteq> sq" "hd ?r1 \<noteq> dq" by simp_all
  have n2: "?r2 \<noteq> []" "hd ?r2 \<noteq> sq" "hd ?r2 \<noteq> dq" by simp_all
  from parse_env_value_unquoted[OF s1 n1]
  have "\<forall>a b. ?r1 = a @ hash # b \<and> hash \<notin> set a \<and> a \<noteq> [] \<and>
                 (last a = CHR '' '' \<or> last a = CHR 0x09) \<longrightarrow>
            parse_env_value ?r1 = strip_char dq (strip_char sq (strip a)) \<and>
            parse_env_value ?r1 = rstrip_char dq (rstrip_char sq (strip a))"
    by (rule conjunct1)
  with d1
  have p1: "parse_env_value ?r1
      = rstrip_char dq (rstrip_char sq (strip (''abc'' @ [sq] @ ''  '')))"
    by blast
  from parse_env_value_unquoted[OF s2 n2]
  have "(\<forall>a b. ?r2 = a @ hash # b \<longrightarrow>
            a = [] \<or> (last a \<noteq> CHR '' '' \<and> last a \<noteq> CHR 0x09))
      \<longrightarrow> parse_env_value ?r2 = rstrip_char dq (rstrip_char sq ?r2)"
    by blast
  with d2 have p2: "parse_env_value ?r2 = rstrip_char dq (rstrip_char sq ?r2)" by blast
  from p1 p2 e1 e2 show ?thesis by simp
qed

text \<open>A value ending in two single quotes keeps neither of them.\<close>

theorem one_layer_of_quotes_counterexample:
  "parse_env_value (''abc'' @ [sq, sq]) = ''abc''
   \<and> parse_env_value (''abc'' @ [sq, sq]) \<noteq> ''abc'' @ [sq]"
  by code_simp

subsection \<open>C6: splitting at top-level commas only\<close>

text \<open>
  C6. Every inner list text is the comma-joined sequence of the pieces of a well-formed
  list text: segments of plain characters, quoted strings and slash-delimited regexes
  (in which a backslash-escaped slash does not end the regex), the last one possibly
  ending in a quoted string or regex left open. For every such text the tokenizer
  returns the pieces, stripped, without the empty ones: it splits at the separating
  commas and at no comma inside a quoted string or a regex. The inner text
  \<open>'/a,b/', 'literal,with,comma'\<close> gives exactly two tokens.
\<close>

theorem tokenize_top_level_commas:
  "(\<forall>sgs final tr. wf_text sgs final tr \<longrightarrow>
      tokenize_list (join_commas (pieces sgs final tr))
        = filter (\<lambda>t. t \<noteq> []) (map strip (pieces sgs final tr)))
   \<and> (\<forall>s. \<exists>sgs final tr. wf_text sgs final tr \<and> s = join_commas (pieces sgs final tr))
   \<and> tokenize_list (sq # ''/a,b/'' @ sq # '', '' @ sq # ''literal,with,comma'' @ [sq])
        = [sq # ''/a,b/'' @ [sq], sq # ''literal,with,comma'' @ [sq]]"
proof -
  have g: "\<forall>sgs final tr. wf_text sgs final tr \<longrightarrow>
      tokenize_list (join_commas (pieces sgs final tr))
        = filter (\<lambda>t. t \<noteq> []) (map strip (pieces sgs final tr))"
    using tokenize_pieces by blast
  have c: "\<forall>s. \<exists>sgs final tr. wf_text sgs final tr \<and> s = join_commas (pieces sgs final tr)"
    using text_complete by blast
  have e: "tokenize_list (sq # ''/a,b/'' @ sq # '', '' @ sq # ''literal,with,comma'' @ [sq])
        = [sq # ''/a,b/'' @ [sq], sq # ''literal,with,comma'' @ [sq]]"
    by code_simp
  from g c e show ?thesis by blast
qed

text \<open>An instance with a regex that holds an escaped slash and a comma, a quoted string
  that holds a comma, an empty segment and a quoted string left open.\<close>

theorem tokenize_top_level_commas_witness:
  "tokenize_list (slash # ''a'' @ bslash # slash # '',b/i, x,,'' @ dq # ''p,q'' @ dq # '' ,''
      @ sq # ''open, end'')
     = [slash # ''a'' @ bslash # slash # '',b/i'', ''x'', dq # ''p,q'' @ [dq],
        sq # ''open, end'']"
proof -
  let ?sgs = "[[Regex [RChar CHR ''a'', REsc slash, RChar comma, RChar CHR ''b''],
                Plain CHR ''i''],
               [Plain CHR '' '', Plain CHR ''x''],
               [],
               [Quoted dq ''p,q'', Plain CHR '' '']]"
  let ?tr = "Open_quote sq ''open, end''"
  have w: "wf_text ?sgs [] ?tr" by (simp add: wf_text_def wf_seg_def)
  have j: "join_commas (pieces ?sgs [] ?tr)
      = slash # ''a'' @ bslash # slash # '',b/i, x,,'' @ dq # ''p,q'' @ dq # '' ,''
        @ sq # ''open, end''"
    by (simp add: pieces_def render_seg_def)
  have t: "filter (\<lambda>t. t \<noteq> []) (map strip (pieces ?sgs [] ?tr))
      = [slash # ''a'' @ bslash # slash # '',b/i'', ''x'', dq # ''p,q'' @ [dq],
         sq # ''open, end'']"
    by code_simp
  from tokenize_top_level_commas w have
    "tokenize_list (join_commas (pieces ?sgs [] ?tr))
        = filter (\<lambda>t. t \<noteq> []) (map strip (pieces ?sgs [] ?tr))"
    by blast
  with j t show ?thesis by simp
qed

subsection \<open>C7: tokenizing a re-joined token list\<close>

text \<open>
  C7. For every string \<open>s\<close> with \<open>ts = tokenize_list s\<close>, tokenizing the comma-joined
  \<open>ts\<close>, joining and tokenizing again gives the tokens of the comma-joined \<open>ts\<close>; and
  these are \<open>ts\<close> itself.
\<close>

theorem tokenize_rejoin_idempotent:
  "(let ts = tokenize_list s
    in tokenize_list (join_commas (tokenize_list (join_commas ts)))
         = tokenize_list (join_commas ts))
   \<and> tokenize_list (join_commas (tokenize_list s)) = tokenize_list s"
  by (simp add: Let_def tokenize_join_fixpoint)

text \<open>An instance with an empty token, a quoted string, a regex and a quoted string left
  open.\<close>

theorem tokenize_rejoin_witness:
  "tokenize_list (join_commas (tokenize_list ('' a ,, '' @ sq # ''b,c'' @ sq # '' , /x,y/i,''
      @ [dq] @ ''open, end'')))
     = [''a'', sq # ''b,c'' @ [sq], ''/x,y/i'', dq # ''open, end'']"
proof -
  have t: "tokenize_list ('' a ,, '' @ sq # ''b,c'' @ sq # '' , /x,y/i,''
      @ [dq] @ ''open, end'')
     = [''a'', sq # ''b,c'' @ [sq], ''/x,y/i'', dq # ''open, end'']"
    by code_simp
  from tokenize_rejoin_idempotent[of "'' a ,, '' @ sq # ''b,c'' @ sq # '' , /x,y/i,''
      @ [dq] @ ''open, end''"] t
  show ?thesis by simp
qed

subsection \<open>C8: literals first, then patterns on the raw value\<close>

text \<open>
  C8. For a present value that coerces, under an option that declares literals or
  patterns: the value is accepted exactly when a literal matches or some compiled
  pattern fully matches the raw configuration value; otherwise the key gets one
  \<open>invalid_value\<close> issue. When a literal matches, \<open>fullmatch\<close> is not called at all; when
  none does, it is called on the patterns in order, up to and including the first that
  matches, each time on the raw value.
\<close>

theorem literal_first_then_regex_on_raw:
  assumes "distinct (map fst schema)" and "(nm, opt) \<in> set schema"
    and "map_of env nm = Some raw_value"
    and "coerce_by_type lib raw_value (type_name opt) = Inr (py_val, canon_str)"
    and "literals = (case valid_literals opt of None \<Rightarrow> [] | Some ls \<Rightarrow> ls)"
    and "pairs = (case compiled_regex opt of None \<Rightarrow> [] | Some ps \<Rightarrow> ps)"
    and "literals \<noteq> [] \<or> pairs \<noteq> []"
    and "lit_ok = (literals \<noteq> [] \<and>
           literal_compare lib civ (type_name opt) literals py_val canon_str)"
  shows "filter (\<lambda>i. setting i = Some nm) (issues (validate_env lib schema env strict civ))
           = (if lit_ok \<or> (\<exists>p \<in> set pairs. fullmatch lib (fst p) raw_value) then []
              else [invalid_value_issue lib nm opt raw_value])
         \<and> snd (allowed_check lib civ opt raw_value py_val canon_str)
           = (if lit_ok then []
              else map (\<lambda>p. (fst p, raw_value))
                     (takeWhile (\<lambda>p. \<not> fullmatch lib (fst p) raw_value) pairs
                      @ take 1 (dropWhile (\<lambda>p. \<not> fullmatch lib (fst p) raw_value) pairs)))"
proof -
  note spec = allowed_check_spec[OF assms(5,6,8), of raw_value]
  have c: "check_option lib civ env (nm, opt) =
      (if lit_ok \<or> (\<exists>p \<in> set pairs. fullmatch lib (fst p) raw_value) then []
       else [invalid_value_issue lib nm opt raw_value])"
    using assms(3,4,7) unfolding assms(5,6)
    by (simp add: check_option_def Let_def spec[unfolded assms(5,6)])
  show ?thesis
    by (simp add: issues_for_option[OF assms(1,2)] c spec tried_def)
qed

text \<open>An instance: \<open>PORT=8080\<close> is accepted by the pattern; \<open>PORT=08080\<close>, whose canonical
  form \<open>8080\<close> the pattern would match, is rejected; for \<open>PORT=443\<close> a literal matches
  and no pattern is tried.\<close>

theorem literal_first_then_regex_witness:
  "filter (\<lambda>i. setting i = Some ''PORT'')
     (issues (validate_env demo_lib demo_schema [(''PORT'', ''8080'')] False True)) = []
   \<and> snd (allowed_check demo_lib True port_option ''8080'' (PInt 8080) ''8080'')
       = [(four_digits, ''8080'')]
   \<and> filter (\<lambda>i. setting i = Some ''PORT'')
     (issues (validate_env demo_lib demo_schema [(''PORT'', ''08080'')] False True))
       = [invalid_value_issue demo_lib ''PORT'' port_option ''08080'']
   \<and> snd (allowed_check demo_lib True port_option ''443'' (PInt 443) ''443'') = []"
proof -
  have d: "distinct (map fst demo_schema)" by (simp add: demo_schema_def)
  have m: "(''PORT'', port_option) \<in> set demo_schema" by (simp add: demo_schema_def)
  have ls: "[''80'', ''443''] = (case valid_literals port_option of None \<Rightarrow> [] | Some ls \<Rightarrow> ls)"
    by (simp add: port_option_def)
  have ps: "[(four_digits, ''/^[0-9]{4}$/'')]
      = (case compiled_regex port_option of None \<Rightarrow> [] | Some ps \<Rightarrow> ps)"
    by (simp add: port_option_def)
  have ne: "[''80'', ''443''] \<noteq> [] \<or> [(four_digits, ''/^[0-9]{4}$/'')] \<noteq> []" by simp
  have p1: "map_of [(''PORT'', ''8080'')] ''PORT'' = Some ''8080''" by simp
  have c1: "coerce_by_type demo_lib ''8080'' (type_name port_option)
      = Inr (PInt 8080, ''8080'')" by (simp add: coerce_eval port_option_def)
  have l1: "False = ([''80'', ''443''] \<noteq> [] \<and>
      literal_compare demo_lib True (type_name port_option) [''80'', ''443'']
        (PInt 8080) ''8080'')" by code_simp
  have p2: "map_of [(''PORT'', ''08080'')] ''PORT'' = Some ''08080''" by simp
  have c2: "coerce_by_type demo_lib ''08080'' (type_name port_option)
      = Inr (PInt 8080, ''8080'')" by (simp add: coerce_eval port_option_def)
  have p3: "map_of [(''PORT'', ''443'')] ''PORT'' = Some ''443''" by simp
  have c3: "coerce_by_type demo_lib ''443'' (type_name port_option)
      = Inr (PInt 443, ''443'')" by (simp add: coerce_eval port_option_def)
  have l3: "True = ([''80'', ''443''] \<noteq> [] \<and>
      literal_compare demo_lib True (type_name port_option) [''80'', ''443'']
        (PInt 443) ''443'')" by code_simp
  have f1: "fullmatch demo_lib four_digits ''8080''" by code_simp
  have f2: "\<not> fullmatch demo_lib four_digits ''08080''" by code_simp
  from literal_first_then_regex_on_raw[OF d m p1 c1 ls ps ne l1, of False]
       literal_first_then_regex_on_raw[OF d m p2 c2 ls ps ne l1, of False]
       literal_first_then_regex_on_raw[OF d m p3 c3 ls ps ne l3, of False]
       f1 f2
  show ?thesis by simp
qed

subsection \<open>C9: literals of typed options\<close>

text \<open>
  C9. For an option of type \<open>bool\<close>, \<open>int\<close> or \<open>float\<close> and a value that coerces: the
  literal comparison holds exactly when some allowed literal coerces for that type to a
  typed value equal to the value's; a literal that fails to coerce never matches, and
  the comparison is the same without such literals. For a present key whose option
  declares literals, the issues for the key are none if a coercible literal or a
  pattern matches, and one \<open>invalid_value\<close> issue otherwise: a literal that fails to
  coerce is the cause of no issue of its own.
\<close>

theorem typed_literals_compared_by_value:
  assumes "type_name opt = ''bool'' \<or> type_name opt = ''int'' \<or> type_name opt = ''float''"
    and "coerce_by_type lib raw_value (type_name opt) = Inr (py_val, canon_str)"
    and "distinct (map fst schema)" and "(nm, opt) \<in> set schema"
    and "map_of env nm = Some raw_value"
    and "valid_literals opt = Some literals" and "literals \<noteq> []"
  shows "literal_compare lib civ (type_name opt) literals py_val canon_str
           = (\<exists>lit \<in> set literals. \<exists>v' c'.
                coerce_by_type lib lit (type_name opt) = Inr (v', c') \<and> py_eq lib v' py_val)
         \<and> (\<forall>lit e. coerce_by_type lib lit (type_name opt) = Inl e \<longrightarrow>
                \<not> py_eq lib (normalize_literal_for_type lib lit (type_name opt)) py_val)
         \<and> literal_compare lib civ (type_name opt) literals py_val canon_str
           = literal_compare lib civ (type_name opt)
               (filter (\<lambda>lit. \<exists>v' c'. coerce_by_type lib lit (type_name opt) = Inr (v', c'))
                  literals)
               py_val canon_str
         \<and> filter (\<lambda>i. setting i = Some nm) (issues (validate_env lib schema env strict civ))
           = (if (\<exists>lit \<in> set literals. \<exists>v' c'.
                    coerce_by_type lib lit (type_name opt) = Inr (v', c') \<and> py_eq lib v' py_val)
                 \<or> (\<exists>p \<in> set (case compiled_regex opt of None \<Rightarrow> [] | Some ps \<Rightarrow> ps).
                       fullmatch lib (fst p) raw_value)
              then [] else [invalid_value_issue lib nm opt raw_value])"
proof -
  let ?ty = "type_name opt"
  let ?pairs = "case compiled_regex opt of None \<Rightarrow> [] | Some ps \<Rightarrow> ps"
  note lc = typed_literal_compare[OF assms(1,2), of civ]
  have ns: "\<forall>s. py_val \<noteq> PStr s" using assms(1,2) by (rule coerce_typed)
  have fail: "\<forall>lit e. coerce_by_type lib lit ?ty = Inl e \<longrightarrow>
      \<not> py_eq lib (normalize_literal_for_type lib lit ?ty) py_val"
    using assms(1) ns by (simp add: normalize_typed py_eq_PStr)
  have filt: "literal_compare lib civ ?ty literals py_val canon_str
      = literal_compare lib civ ?ty
          (filter (\<lambda>lit. \<exists>v' c'. coerce_by_type lib lit ?ty = Inr (v', c')) literals)
          py_val canon_str"
    unfolding lc by auto
  have ls: "literals = (case valid_literals opt of None \<Rightarrow> [] | Some ls \<Rightarrow> ls)"
    using assms(6) by simp
  have ok: "literal_compare lib civ ?ty literals py_val canon_str
      = (literals \<noteq> [] \<and> literal_compare lib civ ?ty literals py_val canon_str)"
    using assms(7) by simp
  have spec: "allowed_check lib civ opt raw_value py_val canon_str =
      (literal_compare lib civ ?ty literals py_val canon_str
         \<or> (\<exists>p \<in> set ?pairs. fullmatch lib (fst p) raw_value),
       if literal_compare lib civ ?ty literals py_val canon_str then []
       else tried lib raw_value ?pairs)"
    using ls refl ok by (rule allowed_check_spec)
  have c: "check_option lib civ env (nm, opt) =
      (if literal_compare lib civ ?ty literals py_val canon_str
          \<or> (\<exists>p \<in> set ?pairs. fullmatch lib (fst p) raw_value)
       then [] else [invalid_value_issue lib nm opt raw_value])"
    using assms(2,5,6,7) by (simp add: check_option_def Let_def spec)
  have iss: "filter (\<lambda>i. setting i = Some nm)
        (issues (validate_env lib schema env strict civ))
      = (if (\<exists>lit \<in> set literals. \<exists>v' c'.
               coerce_by_type lib lit ?ty = Inr (v', c') \<and> py_eq lib v' py_val)
            \<or> (\<exists>p \<in> set ?pairs. fullmatch lib (fst p) raw_value)
         then [] else [invalid_value_issue lib nm opt raw_value])"
    unfolding issues_for_option[OF assms(3,4)] c lc by (rule refl)
  from lc fail filt iss show ?thesis by blast
qed

text \<open>An instance: the literals \<open>three\<close> and \<open>03\<close> of an integer option; the value
  \<open>+3\<close> is accepted, the value \<open>4\<close> is not.\<close>

theorem typed_literals_witness:
  "filter (\<lambda>i. setting i = Some ''RETRIES'')
     (issues (validate_env demo_lib [(''RETRIES'', retries_option)]
        [(''RETRIES'', '' +3 '')] False True)) = []
   \<and> filter (\<lambda>i. setting i = Some ''RETRIES'')
     (issues (validate_env demo_lib [(''RETRIES'', retries_option)]
        [(''RETRIES'', ''4'')] False True))
       = [invalid_value_issue demo_lib ''RETRIES'' retries_option ''4'']
   \<and> \<not> py_eq demo_lib (normalize_literal_for_type demo_lib ''three'' ''int'') (PInt 3)"
proof -
  let ?schema = "[(''RETRIES'', retries_option)]"
  have ty: "type_name retries_option = ''bool'' \<or> type_name retries_option = ''int''
      \<or> type_name retries_option = ''float''"
    by (simp add: retries_option_def)
  have tn: "type_name retries_option = ''int''" by (simp add: retries_option_def)
  have d: "distinct (map fst ?schema)" by simp
  have m: "(''RETRIES'', retries_option) \<in> set ?schema" by simp
  have vl: "valid_literals retries_option = Some [''three'', ''03'']"
    by (simp add: retries_option_def)
  have cr: "compiled_regex retries_option = None" by (simp add: retries_option_def)
  have ne: "[''three'', ''03''] \<noteq> []" by simp
  have p1: "map_of [(''RETRIES'', '' +3 '')] ''RETRIES'' = Some '' +3 ''" by simp
  have c1: "coerce_by_type demo_lib '' +3 '' (type_name retries_option) = Inr (PInt 3, ''3'')"
    by (simp add: coerce_eval retries_option_def)
  have p2: "map_of [(''RETRIES'', ''4'')] ''RETRIES'' = Some ''4''" by simp
  have c2: "coerce_by_type demo_lib ''4'' (type_name retries_option) = Inr (PInt 4, ''4'')"
    by (simp add: coerce_eval retries_option_def)
  have l1: "coerce_by_type demo_lib ''three'' ''int''
      = Inl ''expected an integer (e.g., -10, 0, 42)''"
    by (simp add: coerce_eval)
  have l2: "coerce_by_type demo_lib ''03'' ''int'' = Inr (PInt 3, ''3'')"
    by (simp add: coerce_eval)
  from typed_literals_compared_by_value[OF ty c1 d m p1 vl ne, where civ = True and strict = False]
       typed_literals_compared_by_value[OF ty c2 d m p2 vl ne, where civ = True and strict = False]
       l1 l2 tn cr
  show ?thesis by simp
qed

subsection \<open>C10: at most one issue per name\<close>

text \<open>
  C10. For every schema (with distinct keys) and configuration, \<open>validate_env\<close> emits at
  most one issue whose setting is a given schema option's name, and its code is
  \<open>missing\<close>, \<open>type_mismatch\<close> or \<open>invalid_value\<close>; an \<open>unknown\<close> issue is attached to a
  configuration key that is no schema option's name.
\<close>

theorem one_issue_per_option:
  assumes "distinct (map fst schema)" and "nm \<in> fst ` set schema"
  shows "length (filter (\<lambda>i. setting i = Some nm)
                   (issues (validate_env lib schema env strict civ))) \<le> 1
         \<and> (\<forall>i \<in> set (issues (validate_env lib schema env strict civ)).
               setting i = Some nm \<longrightarrow>
                 code i = Missing \<or> code i = Type_mismatch \<or> code i = Invalid_value)
         \<and> (\<forall>i \<in> set (issues (validate_env lib schema env strict civ)).
               code i = Unknown \<longrightarrow>
                 (\<exists>k. setting i = Some k \<and> k \<in> fst ` set env \<and> k \<notin> fst ` set schema))"
proof -
  let ?is = "issues (validate_env lib schema env strict civ)"
  from assms(2) obtain opt where m: "(nm, opt) \<in> set schema" by auto
  have f: "filter (\<lambda>i. setting i = Some nm) ?is = check_option lib civ env (nm, opt)"
    by (rule issues_for_option[OF assms(1) m])
  have one: "length (filter (\<lambda>i. setting i = Some nm) ?is) \<le> 1"
    using check_option_cases[of lib civ env nm opt] f by auto
  have codes: "\<forall>i \<in> set ?is. setting i = Some nm \<longrightarrow>
      code i = Missing \<or> code i = Type_mismatch \<or> code i = Invalid_value"
  proof (intro ballI impI)
    fix i assume "i \<in> set ?is" "setting i = Some nm"
    then have "i \<in> set (filter (\<lambda>i. setting i = Some nm) ?is)" by simp
    then have "i \<in> set (check_option lib civ env (nm, opt))" using f by simp
    then show "code i = Missing \<or> code i = Type_mismatch \<or> code i = Invalid_value"
      using check_option_cases[of lib civ env nm opt] by auto
  qed
  have unk: "\<forall>i \<in> set ?is. code i = Unknown \<longrightarrow>
      (\<exists>k. setting i = Some k \<and> k \<in> fst ` set env \<and> k \<notin> fst ` set schema)"
  proof (intro ballI impI)
    fix i assume i: "i \<in> set ?is" and c: "code i = Unknown"
    have "i \<notin> set (concat (map (check_option lib civ env) schema))"
    proof
      assume "i \<in> set (concat (map (check_option lib civ env) schema))"
      then obtain n' o' where "i \<in> set (check_option lib civ env (n', o'))" by auto
      then show False using check_option_cases[of lib civ env n' o'] c by auto
    qed
    with i have "strict \<and> i \<in> set (map unknown_issue (unknown_keys schema env))"
      by (auto simp: issues_validate_env split: if_splits)
    then obtain k where "k \<in> set (unknown_keys schema env)" "i = unknown_issue k" by auto
    then show "\<exists>k. setting i = Some k \<and> k \<in> fst ` set env \<and> k \<notin> fst ` set schema"
      by (auto simp: unknown_keys_set unknown_issue_def)
  qed
  from one codes unk show ?thesis by blast
qed

text \<open>An instance: an undeclared key, a value of the wrong type and an absent optional
  option give one issue each.\<close>

theorem one_issue_per_option_witness:
  "length (filter (\<lambda>i. setting i = Some ''PORT'')
     (issues (validate_env demo_lib demo_schema
        [(''PORT'', ''eighty''), (''FOO'', ''bar'')] True True))) \<le> 1
   \<and> map code (issues (validate_env demo_lib demo_schema
        [(''PORT'', ''eighty''), (''FOO'', ''bar'')] True True))
       = [Unknown, Type_mismatch, Missing]"
proof -
  have d: "distinct (map fst demo_schema)" by (simp add: demo_schema_def)
  have m: "''PORT'' \<in> fst ` set demo_schema" by (simp add: demo_schema_def)
  have c: "map code (issues (validate_env demo_lib demo_schema
        [(''PORT'', ''eighty''), (''FOO'', ''bar'')] True True))
       = [Unknown, Type_mismatch, Missing]"
    by code_simp
  from one_issue_per_option[OF d m] c show ?thesis by blast
qed

end
